theory Spec2Isabelle
  imports Complex_Main
begin

unbundle bit_operations_syntax

section \<open>Sorted endpoint index (BinarySearch)\<close>

text \<open>
  The index stores numbers in a sorted array. The only non-finite number the code itself
  writes is \<open>Infinity\<close> (the removal flag of \<open>_update_sort\<close>), so a number is a finite
  real or \<open>Infinity\<close>, and \<open>Infinity\<close> is above every finite number; rounding,
  \<open>-Infinity\<close> and \<open>NaN\<close> are outside the model. Array indices are integers (the search
  lets \<open>maxIndex\<close> reach \<open>-1\<close>); in the search they are never negative where they are
  halved and stay far below \<open>2^31\<close>, where \<open>| 0\<close> and \<open>~\<close> act as on the integers.
\<close>

datatype number = Fin real | Infinity

instantiation number :: linorder
begin

fun less_eq_number :: "number \<Rightarrow> number \<Rightarrow> bool" where
  "less_eq_number (Fin a) (Fin b) = (a \<le> b)"
| "less_eq_number Infinity (Fin b) = False"
| "less_eq_number a Infinity = True"

definition less_number :: "number \<Rightarrow> number \<Rightarrow> bool" where
  "less_number a b = (a \<le> b \<and> \<not> b \<le> a)"

instance
proof
  fix x y z :: number
  show "(x < y) = (x \<le> y \<and> \<not> y \<le> x)" by (simp add: less_number_def)
  show "x \<le> x" by (cases x) simp_all
  show "x \<le> y \<Longrightarrow> y \<le> z \<Longrightarrow> x \<le> z" by (cases x; cases y; cases z) simp_all
  show "x \<le> y \<Longrightarrow> y \<le> x \<Longrightarrow> x = y" by (cases x; cases y) simp_all
  show "x \<le> y \<or> y \<le> x" by (cases x; cases y) auto
qed

end

text \<open>\<open>cmp = function (a, b) {return a-b;}\<close>: only the sign of the difference is read by
  \<open>sort\<close>. \<open>Infinity - Infinity\<close> is \<open>NaN\<close>, which \<open>sort\<close> reads as \<open>0\<close>.\<close>

fun cmp :: "number \<Rightarrow> number \<Rightarrow> real" where
  "cmp (Fin a) (Fin b) = a - b"
| "cmp Infinity (Fin b) = 1"
| "cmp (Fin a) Infinity = - 1"
| "cmp Infinity Infinity = 0"

text \<open>\<open>resolve_approach\<close>: the strategy is a string, as in the source.\<close>

definition resolve_approach :: "nat \<Rightarrow> nat \<Rightarrow> string" where
  "resolve_approach arrayLength batchLength =
     (if arrayLength = 0 then ''sort''
      else if batchLength \<le> 100 then ''splice'' else ''sort'')"

subsection \<open>Array primitives of the host language\<close>

text \<open>Reading \<open>array[i]\<close>: \<open>undefined\<close> (here \<open>None\<close>) outside the array.\<close>

definition Array_get :: "'a list \<Rightarrow> int \<Rightarrow> 'a option" where
  "Array_get array i =
     (if 0 \<le> i \<and> i < int (length array) then Some (array ! nat i) else None)"

text \<open>\<open>array.splice(start, deleteCount, ...items)\<close>: a negative \<open>start\<close> counts from the
  end, and both arguments are clamped to the array.\<close>

definition Array_splice :: "'a list \<Rightarrow> int \<Rightarrow> int \<Rightarrow> 'a list \<Rightarrow> 'a list" where
  "Array_splice array start deleteCount items =
     (let len = int (length array);
          s = (if start < 0 then max (len + start) 0 else min start len);
          d = min (max deleteCount 0) (len - s)
      in take (nat s) array @ items @ drop (nat (s + d)) array)"

text \<open>\<open>array.indexOf(x)\<close>: the first index holding \<open>x\<close>, or \<open>-1\<close>.\<close>

fun Array_indexOf :: "'a list \<Rightarrow> 'a \<Rightarrow> int" where
  "Array_indexOf [] x = - 1"
| "Array_indexOf (y # ys) x =
     (if y = x then 0
      else let i = Array_indexOf ys x in if i = - 1 then - 1 else i + 1)"

text \<open>\<open>array.sort(c)\<close> with a comparator: an insertion sort that reads only the sign of
  \<open>c\<close>. Which sorting algorithm runs does not matter here: elements that \<open>cmp\<close> ranks equal
  are equal numbers.\<close>

fun Array_insort :: "('a \<Rightarrow> 'a \<Rightarrow> real) \<Rightarrow> 'a \<Rightarrow> 'a list \<Rightarrow> 'a list" where
  "Array_insort c x [] = [x]"
| "Array_insort c x (y # ys) =
     (if c x y \<le> 0 then x # y # ys else y # Array_insort c x ys)"

definition Array_sort :: "('a \<Rightarrow> 'a \<Rightarrow> real) \<Rightarrow> 'a list \<Rightarrow> 'a list" where
  "Array_sort c array = foldr (Array_insort c) array []"

subsection \<open>Binary search\<close>

function binaryIndexOf_loop :: "'a::linorder list \<Rightarrow> 'a \<Rightarrow> int \<Rightarrow> int \<Rightarrow> int" where
  "binaryIndexOf_loop array searchElement minIndex maxIndex =
     (if minIndex \<le> maxIndex then
        (let currentIndex = (minIndex + maxIndex) div 2 in
         case Array_get array currentIndex of
           None \<Rightarrow> currentIndex
         | Some currentElement \<Rightarrow>
             if currentElement < searchElement then
               binaryIndexOf_loop array searchElement (currentIndex + 1) maxIndex
             else if currentElement > searchElement then
               binaryIndexOf_loop array searchElement minIndex (currentIndex - 1)
             else currentIndex)
      else NOT maxIndex)"
  by pat_completeness auto
termination
  by (relation "measure (\<lambda>(array, searchElement, minIndex, maxIndex).
        nat (maxIndex - minIndex + 1))") auto

declare binaryIndexOf_loop.simps [simp del]

definition binaryIndexOf :: "'a::linorder list \<Rightarrow> 'a \<Rightarrow> int" where
  "binaryIndexOf array searchElement =
     binaryIndexOf_loop array searchElement 0 (int (length array) - 1)"

definition isFound :: "'a list \<Rightarrow> int \<Rightarrow> 'a \<Rightarrow> bool" where
  "isFound array index x =
     (if index > 0 then True
      else if index = 0 \<and> length array > 0 \<and> array ! 0 = x then True
      else False)"

definition indexOf :: "'a::linorder list \<Rightarrow> 'a \<Rightarrow> int" where
  "indexOf array x =
     (let index = binaryIndexOf array x
      in if isFound array index x then index else - 1)"

fun indexOfElements :: "'a::linorder list \<Rightarrow> 'a list \<Rightarrow> int list" where
  "indexOfElements array [] = []"
| "indexOfElements array (x # elements) =
     (let index = indexOf array x
      in if index > - 1 then index # indexOfElements array elements
         else indexOfElements array elements)"

text \<open>\<open>_unique\<close>: \<open>[...new Set(A)]\<close> inserts in order and keeps the first occurrence.\<close>

definition unique :: "'a list \<Rightarrow> 'a list" where
  "unique A = fold (\<lambda>x seen. if x \<in> set seen then seen else seen @ [x]) A []"

subsection \<open>Bulk update\<close>

definition update_splice :: "'a::linorder list \<Rightarrow> 'a list \<Rightarrow> 'a list \<Rightarrow> 'a list" where
  "update_splice array to_remove to_insert =
     (let array1 =
            (if length array > 0 then
               (let indexes = sort (indexOfElements array to_remove)
                in fold (\<lambda>i a. Array_splice a i 1 []) (rev indexes) array)
             else array)
      in fold (\<lambda>x a.
                 let index = binaryIndexOf a x
                 in if \<not> isFound a index x then Array_splice a \<bar>index\<bar> 0 [x] else a)
              to_insert array1)"

definition update_sort :: "number list \<Rightarrow> number list \<Rightarrow> number list \<Rightarrow> number list" where
  "update_sort array to_remove to_insert =
     (let array1 =
            (if length array > 0 then
               fold (\<lambda>i a. a[nat i := Infinity]) (indexOfElements array to_remove) array
             else array);
          array2 = array1 @ to_insert;
          array3 = Array_sort cmp array2;
          index = Array_indexOf array3 Infinity;
          array4 = Array_splice array3 index (int (length array3)) []
      in unique array4)"

definition update :: "number list \<Rightarrow> number list \<Rightarrow> number list \<Rightarrow> number list" where
  "update array to_remove to_insert =
     (let size = length to_remove + length to_insert
      in if size = 0 then array
         else (let approach = resolve_approach (length array) size
               in if approach = ''splice'' then update_splice array to_remove to_insert
                  else if approach = ''sort'' then update_sort array to_remove to_insert
                  else array))"

text \<open>The insertion index of an absent element, in the words of the specification: the
  index at which it would be inserted, that is the number of stored elements below it.\<close>

definition insertion_index :: "'a::linorder list \<Rightarrow> 'a \<Rightarrow> int" where
  "insertion_index array x = int (length (filter (\<lambda>y. y < x) array))"

section \<open>Maps of the host language and the map utilities\<close>

text \<open>
  A \<open>Map\<close> keeps its entries in insertion order, one entry per key: an association list
  whose keys are distinct (\<open>Map_ok\<close>). \<open>set\<close> on a stored key replaces the value in
  place; \<open>new Map(entries)\<close> sets the entries in order.
\<close>

type_synonym ('k, 'v) Map = "('k \<times> 'v) list"

definition Map_ok :: "('k, 'v) Map \<Rightarrow> bool" where
  "Map_ok m = distinct (map fst m)"

definition Map_size :: "('k, 'v) Map \<Rightarrow> nat" where
  "Map_size m = length m"

definition Map_has :: "('k, 'v) Map \<Rightarrow> 'k \<Rightarrow> bool" where
  "Map_has m k = (k \<in> fst ` set m)"

definition Map_get :: "('k, 'v) Map \<Rightarrow> 'k \<Rightarrow> 'v option" where
  "Map_get m k = map_of m k"

definition Map_set :: "('k, 'v) Map \<Rightarrow> 'k \<Rightarrow> 'v \<Rightarrow> ('k, 'v) Map" where
  "Map_set m k v =
     (if Map_has m k then map (\<lambda>(k', v'). if k' = k then (k, v) else (k', v')) m
      else m @ [(k, v)])"

definition Map_delete :: "('k, 'v) Map \<Rightarrow> 'k \<Rightarrow> ('k, 'v) Map" where
  "Map_delete m k = filter (\<lambda>(k', v'). k' \<noteq> k) m"

definition Map_values :: "('k, 'v) Map \<Rightarrow> 'v list" where
  "Map_values m = map snd m"

definition Map_new :: "('k \<times> 'v) list \<Rightarrow> ('k, 'v) Map" where
  "Map_new entries = fold (\<lambda>(k, v) m. Map_set m k v) entries []"

definition map_difference :: "('k, 'v) Map \<Rightarrow> ('k, 'v) Map \<Rightarrow> ('k, 'v) Map" where
  "map_difference a b =
     (if Map_size a = 0 then []
      else if Map_size b = 0 then a
      else Map_new (filter (\<lambda>(key, value). \<not> Map_has b key) a))"

definition map_intersect :: "('k, 'v) Map \<Rightarrow> ('k, 'v) Map \<Rightarrow> ('k, 'v) Map" where
  "map_intersect a0 b0 =
     (let (a, b) = (if Map_size a0 \<le> Map_size b0 then (a0, b0) else (b0, a0))
      in if Map_size a = 0 then []
         else Map_new (filter (\<lambda>(key, value). Map_has b key) a))"

section \<open>Sequencer\<close>

subsection \<open>Data\<close>

record interval =
  low :: real
  high :: real
  lowInclude :: bool
  highInclude :: bool

text \<open>Modelled from the spec: the four-argument constructor of the interval module, which
  is not among the sources; it stores its arguments.\<close>

definition Interval :: "real \<Rightarrow> real \<Rightarrow> bool \<Rightarrow> bool \<Rightarrow> interval" where
  "Interval l h li hi = \<lparr>low = l, high = h, lowInclude = li, highInclude = hi\<rparr>"

record cue =
  key :: nat
  interval :: interval
  data :: int

text \<open>A change record \<open>{key, new, old}\<close>; \<open>undefined\<close> is \<open>None\<close>. An item of the Axis
  event map carries a \<open>delta\<close> as well. Field names are unique in a theory, so the key of
  a record is \<open>ekey\<close> and the fields of a delta are \<open>interval_delta\<close> and \<open>data_delta\<close>.\<close>

record event =
  ekey :: nat
  new :: "cue option"
  old :: "cue option"

text \<open>Modelled from the spec: the enumerations \<open>Axis.Delta\<close>, \<open>MotionDelta.PosDelta\<close> and
  \<open>MotionDelta.MoveDelta\<close>, whose modules are not among the sources.\<close>

datatype Delta = NOOP | INSERT | CHANGE | DELETE

record delta =
  interval_delta :: Delta
  data_delta :: Delta

record axis_event = event +
  delta :: delta

datatype PosDelta = PosDelta_NOOP | PosDelta_CHANGE

datatype MoveDelta = MoveDelta_NOOP | MoveDelta_START | MoveDelta_STOP | MoveDelta_CHANGE

record MotionDelta =
  posDelta :: PosDelta
  moveDelta :: MoveDelta

record vector =
  position :: real
  velocity :: real
  acceleration :: real
  timestamp :: real

text \<open>The timing object as the sequencer reads it: its vectors, the reading of its clock
  and its readiness.\<close>

record timingobject =
  to_vector :: vector
  to_old_vector :: vector
  clock_now :: real
  to_isReady :: bool

text \<open>An item of a scheduler batch; the endpoint is the array
  \<open>[value, right, closed, singular]\<close>.\<close>

record endpointItem =
  endpoint :: "real \<times> bool \<times> bool \<times> bool"
  cue :: cue
  direction :: int

text \<open>The errors a handler can throw.\<close>

datatype error = TypeError | ReferenceError

text \<open>The collaborators that are not part of these sources are parameters of the model:
  \<open>axis.lookup\<close>, \<open>interval.covers_endpoint\<close>, \<open>motionutils.calculateVector\<close> and the
  constructor \<open>motionutils.MotionDelta\<close>. So is the global scope, as far as the sequencer
  reads it: \<open>global_to\<close> is the value of a global variable \<open>to\<close>, or \<open>None\<close> when no such
  variable is declared. Nothing in these sources declares one.\<close>

record env =
  lookup :: "interval \<Rightarrow> cue list"
  covers_endpoint :: "interval \<Rightarrow> real \<Rightarrow> bool"
  calculateVector :: "vector \<Rightarrow> real \<Rightarrow> vector"
  newMotionDelta :: "vector \<Rightarrow> vector \<Rightarrow> MotionDelta"
  global_to :: "timingobject option"

type_synonym activeCues = "(nat, cue) Map"

definition exit_event :: "cue \<Rightarrow> event" where
  "exit_event c = \<lparr>ekey = key c, new = None, old = Some c\<rparr>"

definition enter_event :: "cue \<Rightarrow> event" where
  "enter_event c = \<lparr>ekey = key c, new = Some c, old = None\<rparr>"

definition isNoop :: "delta \<Rightarrow> bool" where
  "isNoop d = (interval_delta d = NOOP \<and> data_delta d = NOOP)"

text \<open>\<open>eventifyTriggerEvent\<close> is called only for a non-empty batch; the notifications of a
  handler are the list of batches it triggers.\<close>

definition trigger :: "event list \<Rightarrow> event list list" where
  "trigger events = (if length events > 0 then [events] else [])"

subsection \<open>Scheduler callback\<close>

definition onScheduleCallback_item ::
  "endpointItem \<Rightarrow> activeCues \<times> event list \<Rightarrow> activeCues \<times> event list" where
  "onScheduleCallback_item item st =
     (let (activeCues, events) = st;
          c = cue item;
          has_cue = Map_has activeCues (key c);
          (val, right, closed, singular) = endpoint item
      in if singular then
           (if has_cue then
              (Map_delete activeCues (key c), events @ [exit_event c])
            else
              (activeCues, events @ [enter_event c] @ [exit_event c]))
         else
           (let right_value = (if right then - 1 else 1);
                enter = (direction item * right_value > 0)
            in if enter then
                 (if \<not> has_cue then
                    (Map_set activeCues (key c) c, events @ [enter_event c])
                  else (activeCues, events))
               else
                 (if has_cue then
                    (Map_delete activeCues (key c), events @ [exit_event c])
                  else (activeCues, events))))"

definition onScheduleCallback ::
  "endpointItem list \<Rightarrow> activeCues \<Rightarrow> activeCues \<times> event list list" where
  "onScheduleCallback endpointItems activeCues =
     (let (activeCues', events) = fold onScheduleCallback_item endpointItems (activeCues, [])
      in (activeCues', trigger events))"

subsection \<open>Timing callback\<close>

text \<open>
  The body of \<open>_onTimingCallback(eInfo)\<close> reads an identifier \<open>to\<close>. Neither the method nor
  the class nor the module declares it (the timing object of the sequencer is \<open>this._to\<close>,
  which the body does not read), so the identifier resolves in the global scope. Both
  branches that compute \<open>new_vector\<close> read it first: without a global \<open>to\<close> the call throws
  \<open>ReferenceError\<close> before anything is computed. With one, the result is the new active
  set, the notifications, and the vector handed to the scheduler.
\<close>

definition onTimingCallback ::
  "env \<Rightarrow> bool \<Rightarrow> activeCues \<Rightarrow> error + activeCues \<times> event list list \<times> vector" where
  "onTimingCallback e init activeCues =
     (case global_to e of
        None \<Rightarrow> Inl ReferenceError
      | Some to \<Rightarrow>
         (let new_vector =
                (if init then calculateVector e (to_vector to) (clock_now to) else to_vector to);
              d = newMotionDelta e (to_old_vector to) new_vector
          in if posDelta d = PosDelta_CHANGE \<or> moveDelta d = MoveDelta_STOP then
               (let lo = position new_vector;
                    hi = position new_vector;
                    itv = Interval lo hi True True;
                    activeCues' = Map_new (map (\<lambda>c. (key c, c)) (lookup e itv));
                    exitCues = map_difference activeCues activeCues';
                    enterCues = map_difference activeCues' activeCues;
                    events = map exit_event (Map_values exitCues)
                             @ map enter_event (Map_values enterCues)
                in Inr (activeCues', trigger events, new_vector))
             else Inr (activeCues, [], new_vector)))"

subsection \<open>Axis callback\<close>

text \<open>The strategy driven by the event map. A \<open>return\<close> inside the loop leaves the
  function without a result (\<open>undefined\<close>, here \<open>None\<close>).\<close>

fun get_events_from_axis_events_loop ::
  "env \<Rightarrow> activeCues \<Rightarrow> bool \<Rightarrow> real \<Rightarrow> axis_event list \<Rightarrow>
   event list \<times> event list \<times> event list \<Rightarrow> (event list \<times> event list \<times> event list) option"
where
  "get_events_from_axis_events_loop e activeCues first pos [] res = Some res"
| "get_events_from_axis_events_loop e activeCues first pos (item # items)
      (exitEvents, changeEvents, enterEvents) =
     (if isNoop (delta item) then None
      else
        (let is_active = (if first then False else Map_has activeCues (ekey item));
             should_be_active =
               (case new item of
                  None \<Rightarrow> False
                | Some c \<Rightarrow> if covers_endpoint e (interval c) pos then True else False)
         in if is_active \<and> \<not> should_be_active then
              get_events_from_axis_events_loop e activeCues first pos items
                (exitEvents @ [\<lparr>ekey = ekey item, new = None, old = old item\<rparr>],
                 changeEvents, enterEvents)
            else if \<not> is_active \<and> should_be_active then
              get_events_from_axis_events_loop e activeCues first pos items
                (exitEvents, changeEvents,
                 enterEvents @ [\<lparr>ekey = ekey item, new = new item, old = None\<rparr>])
            else if is_active \<and> should_be_active then
              get_events_from_axis_events_loop e activeCues first pos items
                (exitEvents,
                 changeEvents @ [\<lparr>ekey = ekey item, new = new item, old = old item\<rparr>],
                 enterEvents)
            else
              get_events_from_axis_events_loop e activeCues first pos items
                (exitEvents, changeEvents, enterEvents)))"

definition get_events_from_axis_events ::
  "env \<Rightarrow> activeCues \<Rightarrow> (nat, axis_event) Map \<Rightarrow> real \<Rightarrow>
   (event list \<times> event list \<times> event list) option" where
  "get_events_from_axis_events e activeCues eventMap pos =
     (let first = (Map_size activeCues = 0)
      in get_events_from_axis_events_loop e activeCues first pos (Map_values eventMap)
           ([], [], []))"

text \<open>Modelled from the spec: the one-argument constructor of the interval module, which
  is not among the sources: the singular interval at a position, both ends included.\<close>

definition Interval1 :: "real \<Rightarrow> interval" where
  "Interval1 p = Interval p p True True"

text \<open>The strategy driven by a lookup in the Axis, in its two variants.\<close>

definition get_events_from_axis_lookup ::
  "env \<Rightarrow> activeCues \<Rightarrow> (nat, axis_event) Map \<Rightarrow> real \<Rightarrow> bool \<Rightarrow>
   event list \<times> event list \<times> event list" where
  "get_events_from_axis_lookup e activeCues0 eventMap pos approach1 =
     (let activeCues = Map_new (map (\<lambda>c. (key c, c)) (lookup e (Interval1 pos)));
          first = (Map_size activeCues0 = 0);
          remainCues = map_intersect activeCues0 activeCues;
          changeEvents =
            (if \<not> first then
               (if approach1 then
                  concat (map (\<lambda>c. case Map_get eventMap (key c) of
                                       None \<Rightarrow> []
                                     | Some item \<Rightarrow>
                                         if \<not> isNoop (delta item)
                                         then [\<lparr>ekey = ekey item, new = new item, old = old item\<rparr>]
                                         else [])
                              (Map_values remainCues))
                else
                  concat (map (\<lambda>item. case Map_get remainCues (ekey item) of
                                          None \<Rightarrow> []
                                        | Some c \<Rightarrow>
                                            if \<not> isNoop (delta item)
                                            then [\<lparr>ekey = ekey item, new = new item, old = old item\<rparr>]
                                            else [])
                              (Map_values eventMap)))
             else []);
          exitEvents =
            (if \<not> first then
               map exit_event (Map_values (map_difference activeCues0 activeCues))
             else []);
          enterCues = (if first then activeCues else map_difference activeCues activeCues0);
          enterEvents = map enter_event (Map_values enterCues)
      in (exitEvents, changeEvents, enterEvents))"

text \<open>
  \<open>_onAxisCallback\<close> computes all three results, compares their key sets (the comparison
  only logs), and applies the third. Destructuring the first result fails when it is
  \<open>undefined\<close>. An enter event of the third result always carries its cue in \<open>new\<close>.
\<close>

definition keys_of :: "event list \<Rightarrow> nat set" where
  "keys_of events = set (map ekey events)"

definition key_sets :: "event list \<times> event list \<times> event list \<Rightarrow> nat set \<times> nat set \<times> nat set" where
  "key_sets res = (case res of (exitEvents, changeEvents, enterEvents) \<Rightarrow>
     (keys_of exitEvents, keys_of changeEvents, keys_of enterEvents))"

text \<open>The value the event-map strategy computes in its variable \<open>should_be_active\<close>.\<close>

definition should_be_active :: "env \<Rightarrow> real \<Rightarrow> axis_event \<Rightarrow> bool" where
  "should_be_active e pos item =
     (case new item of None \<Rightarrow> False | Some c \<Rightarrow> covers_endpoint e (interval c) pos)"

definition onAxisCallback ::
  "env \<Rightarrow> timingobject \<Rightarrow> (nat, axis_event) Map \<Rightarrow> activeCues \<Rightarrow>
   error + activeCues \<times> event list list \<times> vector" where
  "onAxisCallback e to eventMap activeCues =
     (let now_vector = calculateVector e (to_vector to) (clock_now to);
          res1 = get_events_from_axis_events e activeCues eventMap (position now_vector);
          res2 = get_events_from_axis_lookup e activeCues eventMap (position now_vector) True;
          res3 = get_events_from_axis_lookup e activeCues eventMap (position now_vector) False
      in case res1 of
           None \<Rightarrow> Inl TypeError
         | Some r1 \<Rightarrow>
             (let (exitEvents, changeEvents, enterEvents) = res3;
                  activeCues1 = fold (\<lambda>item m. Map_delete m (ekey item)) exitEvents activeCues;
                  activeCues2 =
                    fold (\<lambda>item m. case new item of
                                      Some c \<Rightarrow> Map_set m (ekey item) c
                                    | None \<Rightarrow> m)
                         enterEvents activeCues1;
                  events = exitEvents @ changeEvents @ enterEvents
              in Inr (activeCues2, trigger events, now_vector)))"

subsection \<open>Readiness\<close>

text \<open>
  The single sequencer holds its timing object and its active cues; \<open>isReady\<close> asks the
  timing object. Its three handlers are the inputs of its state machine; a handler that
  throws leaves the state as it was at the throw, which for both throwing handlers is the
  state before the call.
\<close>

record SingleSequencer =
  seq_to :: timingobject
  seq_activeCues :: activeCues

definition SingleSequencer_isReady :: "SingleSequencer \<Rightarrow> bool" where
  "SingleSequencer_isReady s = to_isReady (seq_to s)"

datatype single_input =
    AxisCallback "(nat, axis_event) Map"
  | TimingCallback bool
  | ScheduleCallback "endpointItem list"

fun single_step :: "env \<Rightarrow> single_input \<Rightarrow> SingleSequencer \<Rightarrow> SingleSequencer" where
  "single_step e (AxisCallback eventMap) s =
     (case onAxisCallback e (seq_to s) eventMap (seq_activeCues s) of
        Inl err \<Rightarrow> s
      | Inr (a, notifications, v) \<Rightarrow> s\<lparr>seq_activeCues := a\<rparr>)"
| "single_step e (TimingCallback init) s =
     (case onTimingCallback e init (seq_activeCues s) of
        Inl err \<Rightarrow> s
      | Inr (a, notifications, v) \<Rightarrow> s\<lparr>seq_activeCues := a\<rparr>)"
| "single_step e (ScheduleCallback endpointItems) s =
     (case onScheduleCallback endpointItems (seq_activeCues s) of
        (a, notifications) \<Rightarrow> s\<lparr>seq_activeCues := a\<rparr>)"

definition single_run :: "env \<Rightarrow> single_input list \<Rightarrow> SingleSequencer \<Rightarrow> SingleSequencer" where
  "single_run e inputs s = fold (single_step e) inputs s"

text \<open>
  The double sequencer keeps its own flags. Timing objects are told apart by identity
  (a number). Only \<open>_onTimingUpdateWrapper\<close> writes the flags; \<open>_onTimingUpdate\<close>,
  \<open>_onAxisUpdate\<close> and \<open>_onScheduleCallback\<close> write none of them, so the state of the
  readiness machine is the flags and the two identities.
\<close>

record DoubleSequencer =
  toA :: nat
  toB :: nat
  ready :: bool
  toB_ready :: bool
  toA_ready :: bool

definition DoubleSequencer_new :: "nat \<Rightarrow> nat \<Rightarrow> DoubleSequencer" where
  "DoubleSequencer_new a b =
     \<lparr>toA = a, toB = b, ready = False, toB_ready = False, toA_ready = False\<rparr>"

definition DoubleSequencer_isReady :: "DoubleSequencer \<Rightarrow> bool" where
  "DoubleSequencer_isReady s = ready s"

definition onTimingUpdateWrapper :: "nat \<Rightarrow> DoubleSequencer \<Rightarrow> DoubleSequencer" where
  "onTimingUpdateWrapper src s =
     (if \<not> ready s then
        (let s1 = (if src = toA s then s\<lparr>toA_ready := True\<rparr>
                   else if src = toB s then s\<lparr>toB_ready := True\<rparr>
                   else s)
         in if toA_ready s1 \<and> toB_ready s1 then s1\<lparr>ready := True\<rparr> else s1)
      else s)"

datatype double_input = TimingUpdate nat | AxisUpdate | ScheduleUpdate

fun double_step :: "double_input \<Rightarrow> DoubleSequencer \<Rightarrow> DoubleSequencer" where
  "double_step (TimingUpdate src) s = onTimingUpdateWrapper src s"
| "double_step AxisUpdate s = s"
| "double_step ScheduleUpdate s = s"

definition double_run :: "double_input list \<Rightarrow> DoubleSequencer \<Rightarrow> DoubleSequencer" where
  "double_run inputs s = fold double_step inputs s"

section \<open>Example data\<close>

text \<open>Three cues, a point cue, an environment over them and a few inputs, for evaluating the
  definitions at concrete points.\<close>

definition cueA :: cue where
  "cueA = \<lparr>key = 1, interval = Interval 0 10 True True, data = 0\<rparr>"
definition cueB :: cue where
  "cueB = \<lparr>key = 2, interval = Interval 5 15 True True, data = 0\<rparr>"
definition cueC :: cue where
  "cueC = \<lparr>key = 3, interval = Interval 20 30 True True, data = 0\<rparr>"

definition example_env :: env where
  "example_env =
     \<lparr>lookup = (\<lambda>itv. filter (\<lambda>c. low (interval c) \<le> high itv \<and> low itv \<le> high (interval c))
                        [cueA, cueB, cueC]),
      covers_endpoint = (\<lambda>i p. (low i < p \<or> (low i = p \<and> lowInclude i))
                               \<and> (p < high i \<or> (p = high i \<and> highInclude i))),
      calculateVector = (\<lambda>v t.
         \<lparr>position = position v + velocity v * (t - timestamp v)
                       + acceleration v * (t - timestamp v) * (t - timestamp v) / 2,
          velocity = velocity v + acceleration v * (t - timestamp v),
          acceleration = acceleration v,
          timestamp = t\<rparr>),
      newMotionDelta = (\<lambda>old_vector new_vector.
         \<lparr>posDelta = (if position old_vector = position new_vector then PosDelta_NOOP
                      else PosDelta_CHANGE),
          moveDelta = MoveDelta_NOOP\<rparr>),
      global_to = None\<rparr>"

definition example_to :: "real \<Rightarrow> real \<Rightarrow> timingobject" where
  "example_to p_old p_new =
     \<lparr>to_vector = \<lparr>position = p_new, velocity = 0, acceleration = 0, timestamp = 0\<rparr>,
      to_old_vector = \<lparr>position = p_old, velocity = 0, acceleration = 0, timestamp = 0\<rparr>,
      clock_now = 0,
      to_isReady = True\<rparr>"

definition itemA_insert :: axis_event where
  "itemA_insert = \<lparr>ekey = 1, new = Some cueA, old = None,
                    delta = \<lparr>interval_delta = INSERT, data_delta = INSERT\<rparr>\<rparr>"

definition itemB_noop :: axis_event where
  "itemB_noop = \<lparr>ekey = 2, new = Some cueB, old = Some cueB,
                  delta = \<lparr>interval_delta = NOOP, data_delta = NOOP\<rparr>\<rparr>"

definition cueP :: cue where
  "cueP = \<lparr>key = 4, interval = Interval 7 7 True True, data = 0\<rparr>"

definition itemP :: endpointItem where
  "itemP = \<lparr>endpoint = (7, False, True, True), cue = cueP, direction = 1\<rparr>"

definition itemB_low :: endpointItem where
  "itemB_low = \<lparr>endpoint = (5, False, True, False), cue = cueB, direction = 1\<rparr>"


definition hundred_and_one :: "number list" where
  "hundred_and_one = map (\<lambda>n. Fin (real n)) [1..<102]"

section \<open>Evaluation rules\<close>

lemma less_number_simps [simp]:
  "Fin a < Fin b \<longleftrightarrow> a < b" "Fin a < Infinity" "\<not> Infinity < z"
  by (cases z; auto simp: less_number_def)+

lemmas fixtures = cueA_def cueB_def cueC_def cueP_def example_env_def example_to_def
  itemA_insert_def itemB_noop_def itemP_def itemB_low_def Interval_def Interval1_def

section \<open>Batch idempotence\<close>

text \<open>
  C8. Performing \<open>update(R, I)\<close> and then \<open>update([], [])\<close> leaves exactly the array that
  \<open>update(R, I)\<close> alone leaves: an empty batch returns at once.
\<close>

theorem update_then_empty_update:
  "update (update array R I) [] [] = update array R I"
  by (simp add: update_def)

section \<open>Binary search\<close>

lemma filter_length_split:
  assumes "n \<le> length xs"
    and "\<forall>i. i < n \<longrightarrow> P (xs ! i)"
    and "\<forall>i. n \<le> i \<and> i < length xs \<longrightarrow> \<not> P (xs ! i)"
  shows "filter P xs = take n xs"
proof -
  have a: "filter P (take n xs) = take n xs"
    using assms by (auto simp: filter_id_conv in_set_conv_nth)
  have b: "filter P (drop n xs) = []"
    using assms by (auto simp: filter_empty_conv in_set_conv_nth)
  have "filter P xs = filter P (take n xs @ drop n xs)" by simp
  also have "\<dots> = take n xs" unfolding filter_append a b by simp
  finally show ?thesis .
qed

lemma Array_get_in_range:
  "0 \<le> i \<Longrightarrow> i < int (length array) \<Longrightarrow> Array_get array i = Some (array ! nat i)"
  by (simp add: Array_get_def)

lemma binaryIndexOf_loop_correct:
  shows "sorted array \<Longrightarrow> 0 \<le> minIndex \<Longrightarrow> maxIndex < int (length array) \<Longrightarrow> minIndex \<le> maxIndex + 1 \<Longrightarrow>
         (\<forall>i. i < nat minIndex \<longrightarrow> array ! i < x) \<Longrightarrow>
         (\<forall>i. nat (maxIndex + 1) \<le> i \<and> i < length array \<longrightarrow> x < array ! i) \<Longrightarrow>
         (x \<in> set array \<longrightarrow>
            0 \<le> binaryIndexOf_loop array x minIndex maxIndex
          \<and> binaryIndexOf_loop array x minIndex maxIndex < int (length array)
          \<and> array ! nat (binaryIndexOf_loop array x minIndex maxIndex) = x)
       \<and> (x \<notin> set array \<longrightarrow>
            binaryIndexOf_loop array x minIndex maxIndex = - insertion_index array x)"
proof (induction array x minIndex maxIndex rule: binaryIndexOf_loop.induct)
  case (1 array x lo hi)
  note srt = "1.prems"(1)
  show ?case
  proof (cases "lo \<le> hi")
    case False
    with "1.prems" have eq: "lo = hi + 1" by simp
    have "binaryIndexOf_loop array x lo hi = NOT hi"
      using False by (simp add: binaryIndexOf_loop.simps [of array x lo hi])
    then have res: "binaryIndexOf_loop array x lo hi = - lo"
      by (simp add: not_int_def eq)
    have notin: "x \<notin> set array"
    proof
      assume "x \<in> set array"
      then obtain j where j: "j < length array" "array ! j = x"
        by (auto simp: in_set_conv_nth)
      show False
      proof (cases "j < nat lo")
        case True
        with "1.prems"(5) have "array ! j < x" by blast
        with j show False by simp
      next
        case False
        then have "nat (hi + 1) \<le> j \<and> j < length array" using j(1) eq by simp
        with "1.prems"(6) have "x < array ! j" by blast
        with j show False by simp
      qed
    qed
    have len: "nat lo \<le> length array" using "1.prems" eq by simp
    have "filter (\<lambda>y. y < x) array = take (nat lo) array"
    proof (rule filter_length_split [OF len])
      show "\<forall>i<nat lo. array ! i < x" using "1.prems"(5) by blast
      show "\<forall>i. nat lo \<le> i \<and> i < length array \<longrightarrow> \<not> array ! i < x"
        using "1.prems"(6) eq by (auto simp: not_less intro: less_imp_le)
    qed
    then have "insertion_index array x = lo"
      using len "1.prems"(2) by (simp add: insertion_index_def)
    with res notin show ?thesis by simp
  next
    case True
    define cur where "cur = (lo + hi) div 2"
    have range: "lo \<le> cur" "cur \<le> hi" using True by (simp_all add: cur_def)
    have cur0: "0 \<le> cur" "cur < int (length array)" using range "1.prems" by simp_all
    have get: "Array_get array cur = Some (array ! nat cur)"
      using cur0 by (rule Array_get_in_range)
    consider (lt) "array ! nat cur < x" | (gt) "x < array ! nat cur" | (eq) "array ! nat cur = x"
      using less_linear by blast
    then show ?thesis
    proof cases
      case lt
      have unfold: "binaryIndexOf_loop array x lo hi = binaryIndexOf_loop array x (cur + 1) hi"
        using True lt get
        by (simp add: binaryIndexOf_loop.simps [of array x lo hi] cur_def [symmetric])
      have below: "\<forall>i. i < nat (cur + 1) \<longrightarrow> array ! i < x"
      proof (intro allI impI)
        fix i assume "i < nat (cur + 1)"
        then have "i \<le> nat cur" using cur0 by simp
        moreover have "nat cur < length array" using cur0 by simp
        ultimately have "array ! i \<le> array ! nat cur"
          using srt by (simp add: sorted_nth_mono)
        with lt show "array ! i < x" by simp
      qed
      have "(x \<in> set array \<longrightarrow>
            0 \<le> binaryIndexOf_loop array x (cur + 1) hi
          \<and> binaryIndexOf_loop array x (cur + 1) hi < int (length array)
          \<and> array ! nat (binaryIndexOf_loop array x (cur + 1) hi) = x)
       \<and> (x \<notin> set array \<longrightarrow>
            binaryIndexOf_loop array x (cur + 1) hi = - insertion_index array x)"
      proof (rule "1.IH"(1) [OF True cur_def get lt srt])
        show "0 \<le> cur + 1" using cur0 by simp
        show "hi < int (length array)" using "1.prems" by simp
        show "cur + 1 \<le> hi + 1" using range by simp
        show "\<forall>i. i < nat (cur + 1) \<longrightarrow> array ! i < x" by (rule below)
        show "\<forall>i. nat (hi + 1) \<le> i \<and> i < length array \<longrightarrow> x < array ! i"
          using "1.prems"(6) .
      qed
      then show ?thesis by (simp only: unfold)
    next
      case gt
      have nlt: "\<not> array ! nat cur < x" using gt by simp
      have unfold: "binaryIndexOf_loop array x lo hi = binaryIndexOf_loop array x lo (cur - 1)"
        using True gt nlt get
        by (simp add: binaryIndexOf_loop.simps [of array x lo hi] cur_def [symmetric])
      have above: "\<forall>i. nat (cur - 1 + 1) \<le> i \<and> i < length array \<longrightarrow> x < array ! i"
      proof (intro allI impI)
        fix i assume "nat (cur - 1 + 1) \<le> i \<and> i < length array"
        then have "nat cur \<le> i" "i < length array" by simp_all
        then have "array ! nat cur \<le> array ! i"
          using srt by (simp add: sorted_nth_mono)
        with gt show "x < array ! i" by simp
      qed
      have "(x \<in> set array \<longrightarrow>
            0 \<le> binaryIndexOf_loop array x lo (cur - 1)
          \<and> binaryIndexOf_loop array x lo (cur - 1) < int (length array)
          \<and> array ! nat (binaryIndexOf_loop array x lo (cur - 1)) = x)
       \<and> (x \<notin> set array \<longrightarrow>
            binaryIndexOf_loop array x lo (cur - 1) = - insertion_index array x)"
      proof (rule "1.IH"(2) [OF True cur_def get nlt gt srt])
        show "0 \<le> lo" using "1.prems" by simp
        show "cur - 1 < int (length array)" using cur0 by simp
        show "lo \<le> cur - 1 + 1" using range by simp
        show "\<forall>i. i < nat lo \<longrightarrow> array ! i < x" using "1.prems"(5) .
        show "\<forall>i. nat (cur - 1 + 1) \<le> i \<and> i < length array \<longrightarrow> x < array ! i" by (rule above)
      qed
      then show ?thesis by (simp only: unfold)
    next
      case eq
      have res: "binaryIndexOf_loop array x lo hi = cur"
        using True eq get
        by (simp add: binaryIndexOf_loop.simps [of array x lo hi] cur_def [symmetric])
      have "x \<in> set array" using eq cur0 by (auto simp: in_set_conv_nth intro!: exI [of _ "nat cur"])
      with res eq cur0 show ?thesis by simp
    qed
  qed
qed

lemma binaryIndexOf_correct:
  assumes "sorted array"
  shows "(x \<in> set array \<longrightarrow>
            0 \<le> binaryIndexOf array x \<and> binaryIndexOf array x < int (length array)
          \<and> array ! nat (binaryIndexOf array x) = x)
       \<and> (x \<notin> set array \<longrightarrow> binaryIndexOf array x = - insertion_index array x)"
  unfolding binaryIndexOf_def
  by (rule binaryIndexOf_loop_correct [OF assms]) auto

lemma insertion_index_nonneg: "0 \<le> insertion_index array x"
  by (simp add: insertion_index_def)

lemma isFound_binaryIndexOf:
  assumes "sorted array"
  shows "isFound array (binaryIndexOf array x) x \<longleftrightarrow> x \<in> set array"
proof (cases "x \<in> set array")
  case True
  with binaryIndexOf_correct [OF assms, of x]
  have r: "0 \<le> binaryIndexOf array x" "binaryIndexOf array x < int (length array)"
    "array ! nat (binaryIndexOf array x) = x" by simp_all
  show ?thesis
  proof (cases "binaryIndexOf array x = 0")
    case True
    with r \<open>x \<in> set array\<close> show ?thesis by (simp add: isFound_def)
  next
    case False
    with r \<open>x \<in> set array\<close> show ?thesis by (simp add: isFound_def)
  qed
next
  case False
  with binaryIndexOf_correct [OF assms, of x]
  have r: "binaryIndexOf array x = - insertion_index array x" by simp
  have "\<not> (length array > 0 \<and> array ! 0 = x)"
    using False by (auto simp: in_set_conv_nth)
  with r False insertion_index_nonneg [of array x] show ?thesis
    by (auto simp: isFound_def)
qed

text \<open>
  C6, as the code has it. For a sorted array of unique elements and an element \<open>x\<close> absent
  from it, \<open>binaryIndexOf(x)\<close> returns the negation \<open>-i\<close> of the insertion index \<open>i\<close>, which
  is the bitwise complement of \<open>i - 1\<close> (the final \<open>maxIndex\<close>) and is never positive. The
  return value \<open>0\<close> may mean found at index 0 or insert at index 0; \<open>isFound\<close> resolves it:
  it holds exactly when \<open>x\<close> is stored.
\<close>

theorem binaryIndexOf_absent:
  assumes "sorted array" and "distinct array"
  shows "(x \<notin> set array \<longrightarrow>
            binaryIndexOf array x = - insertion_index array x
          \<and> binaryIndexOf array x = NOT (insertion_index array x - 1)
          \<and> binaryIndexOf array x \<le> 0)
       \<and> (isFound array (binaryIndexOf array x) x \<longleftrightarrow> x \<in> set array)"
  using binaryIndexOf_correct [OF assms(1), of x] isFound_binaryIndexOf [OF assms(1), of x]
    insertion_index_nonneg [of array x]
  by (simp add: not_int_def)

theorem binaryIndexOf_absent_witness:
  "sorted [Fin 10, Fin 20, Fin 30] \<and> distinct [Fin 10, Fin 20, Fin 30]
   \<and> binaryIndexOf [Fin 10, Fin 20, Fin 30] (Fin 25) = - 2
   \<and> insertion_index [Fin 10, Fin 20, Fin 30] (Fin 25) = 2
   \<and> binaryIndexOf [Fin 10, Fin 20, Fin 30] (Fin 5) = 0
   \<and> \<not> isFound [Fin 10, Fin 20, Fin 30] (binaryIndexOf [Fin 10, Fin 20, Fin 30] (Fin 5)) (Fin 5)
   \<and> isFound [Fin 10, Fin 20, Fin 30] (binaryIndexOf [Fin 10, Fin 20, Fin 30] (Fin 10)) (Fin 10)"
proof -
  have s: "sorted [Fin 10, Fin 20, Fin 30]" by simp
  have d: "distinct [Fin 10, Fin 20, Fin 30]" by simp
  show ?thesis
    using s d binaryIndexOf_absent [OF s d, of "Fin 25"] binaryIndexOf_absent [OF s d, of "Fin 5"]
      binaryIndexOf_absent [OF s d, of "Fin 10"]
    by (simp add: insertion_index_def isFound_def)
qed

text \<open>C6 as stated fails: for \<open>[10]\<close> and \<open>20\<close> the insertion index is 1, its complement is
  \<open>-2\<close>, and the search returns \<open>-1\<close>.\<close>

theorem binaryIndexOf_absent_counterexample:
  "sorted [Fin 10] \<and> distinct [Fin 10] \<and> Fin 20 \<notin> set [Fin 10]
   \<and> insertion_index [Fin 10] (Fin 20) = 1
   \<and> binaryIndexOf [Fin 10] (Fin 20) = - 1
   \<and> binaryIndexOf [Fin 10] (Fin 20) \<noteq> NOT (insertion_index [Fin 10] (Fin 20))"
  by (simp add: binaryIndexOf_def binaryIndexOf_loop.simps insertion_index_def Array_get_def
        not_int_def)

section \<open>Bulk update of the sorted index\<close>

subsection \<open>The splice strategy\<close>

lemma indexOf_sorted:
  assumes "sorted array"
  shows "indexOf array x = (if x \<in> set array then binaryIndexOf array x else - 1)"
  using isFound_binaryIndexOf [OF assms, of x] by (simp add: indexOf_def Let_def)

lemma indexOfElements_sorted:
  assumes "sorted array"
  shows "indexOfElements array xs =
           map (binaryIndexOf array) (filter (\<lambda>x. x \<in> set array) xs)"
proof (induction xs)
  case Nil
  show ?case by simp
next
  case (Cons x xs)
  show ?case
  proof (cases "x \<in> set array")
    case True
    with binaryIndexOf_correct [OF assms, of x] have "0 \<le> binaryIndexOf array x" by simp
    with True Cons.IH show ?thesis by (simp add: indexOf_sorted [OF assms] Let_def)
  next
    case False
    with Cons.IH show ?thesis by (simp add: indexOf_sorted [OF assms] Let_def)
  qed
qed

lemma Array_splice_remove:
  "0 \<le> d \<Longrightarrow> d < int (length a) \<Longrightarrow>
   Array_splice a d 1 [] = take (nat d) a @ drop (Suc (nat d)) a"
  by (simp add: Array_splice_def Let_def min_def max_def Suc_nat_eq_nat_zadd1 add.commute)

lemma remove_nth_distinct:
  assumes "distinct a" and "n < length a"
  shows "take n a @ drop (Suc n) a = filter (\<lambda>y. y \<noteq> a ! n) a"
proof -
  have a: "a = take n a @ a ! n # drop (Suc n) a"
    using assms(2) by (rule id_take_nth_drop)
  have d: "distinct (take n a @ a ! n # drop (Suc n) a)" using assms(1) a by simp
  have t: "filter (\<lambda>y. y \<noteq> a ! n) (take n a) = take n a"
    using d by (auto simp: filter_id_conv)
  have r: "filter (\<lambda>y. y \<noteq> a ! n) (drop (Suc n) a) = drop (Suc n) a"
    using d by (auto simp: filter_id_conv)
  have "filter (\<lambda>y. y \<noteq> a ! n) a =
        filter (\<lambda>y. y \<noteq> a ! n) (take n a @ a ! n # drop (Suc n) a)"
    using a by simp
  also have "\<dots> = take n a @ drop (Suc n) a"
    unfolding filter_append filter.simps t r by simp
  finally show ?thesis by simp
qed

lemma fold_splice_remove:
  "distinct a \<Longrightarrow> sorted_wrt (>) ds \<Longrightarrow> (\<forall>d \<in> set ds. 0 \<le> d \<and> d < int (length a)) \<Longrightarrow>
   fold (\<lambda>i a. Array_splice a i 1 []) ds a =
     filter (\<lambda>y. y \<notin> (\<lambda>d. a ! nat d) ` set ds) a"
proof (induction ds arbitrary: a)
  case Nil
  show ?case by simp
next
  case (Cons d ds)
  define n where "n = nat d"
  define a' where "a' = take n a @ drop (Suc n) a"
  have d: "0 \<le> d" "d < int (length a)" using Cons.prems(3) by simp_all
  have n: "n < length a" using d by (simp add: n_def)
  have step: "Array_splice a d 1 [] = a'"
    using d by (simp add: Array_splice_remove a'_def n_def)
  have a'f: "a' = filter (\<lambda>y. y \<noteq> a ! n) a"
    unfolding a'_def using Cons.prems(1) n by (rule remove_nth_distinct)
  have dist': "distinct a'" using Cons.prems(1) by (simp add: a'f)
  have len': "length a' = length a - 1" using n by (simp add: a'_def)
  have smaller: "\<forall>e \<in> set ds. e < d" using Cons.prems(2) by simp
  have range': "\<forall>e \<in> set ds. 0 \<le> e \<and> e < int (length a')"
  proof
    fix e assume e: "e \<in> set ds"
    with smaller have "e < d" by blast
    moreover from e Cons.prems(3) have "0 \<le> e" by simp
    ultimately show "0 \<le> e \<and> e < int (length a')" using d len' by simp
  qed
  have same: "a' ! nat e = a ! nat e" if "e \<in> set ds" for e
  proof -
    from that smaller have "e < d" by blast
    moreover from that Cons.prems(3) have "0 \<le> e" by simp
    ultimately have "nat e < n" by (simp add: n_def)
    then show ?thesis using n by (simp add: a'_def nth_append)
  qed
  have img: "(\<lambda>e. a' ! nat e) ` set ds = (\<lambda>e. a ! nat e) ` set ds"
    using same by (auto intro!: image_cong)
  have "fold (\<lambda>i a. Array_splice a i 1 []) (d # ds) a =
        fold (\<lambda>i a. Array_splice a i 1 []) ds a'"
    by (simp add: step)
  also have "\<dots> = filter (\<lambda>y. y \<notin> (\<lambda>e. a' ! nat e) ` set ds) a'"
    using dist' Cons.prems(2) range' by (intro Cons.IH) simp_all
  also have "\<dots> = filter (\<lambda>y. y \<notin> (\<lambda>e. a ! nat e) ` set ds) a'"
    by (simp only: img)
  also have "\<dots> = filter (\<lambda>y. y \<notin> (\<lambda>e. a ! nat e) ` set (d # ds)) a"
    unfolding a'f filter_filter by (rule filter_cong) (auto simp: n_def)
  finally show ?case .
qed

lemma splice_removal:
  assumes srt: "sorted array" and dist: "distinct array" and rem: "distinct to_remove"
  shows "fold (\<lambda>i a. Array_splice a i 1 [])
           (rev (sort (indexOfElements array to_remove))) array =
         filter (\<lambda>y. y \<notin> set to_remove) array"
proof -
  define found where "found = filter (\<lambda>x. x \<in> set array) to_remove"
  define idxs where "idxs = map (binaryIndexOf array) found"
  have found_in: "x \<in> set array" if "x \<in> set found" for x
    using that by (simp add: found_def)
  have idx: "0 \<le> binaryIndexOf array x \<and> binaryIndexOf array x < int (length array)
             \<and> array ! nat (binaryIndexOf array x) = x" if "x \<in> set found" for x
    using binaryIndexOf_correct [OF srt, of x] found_in [OF that] by simp
  have inj: "inj_on (binaryIndexOf array) (set found)"
  proof (rule inj_onI)
    fix x y assume x: "x \<in> set found" and y: "y \<in> set found"
      and eq: "binaryIndexOf array x = binaryIndexOf array y"
    have "x = array ! nat (binaryIndexOf array x)" using idx [OF x] by simp
    also have "\<dots> = array ! nat (binaryIndexOf array y)" by (simp only: eq)
    also have "\<dots> = y" using idx [OF y] by simp
    finally show "x = y" .
  qed
  have "distinct found" using rem by (simp add: found_def)
  then have didx: "distinct idxs"
    unfolding idxs_def using inj by (simp add: distinct_map)
  have "sorted_wrt (<) (sort idxs)"
    using didx by (simp add: strict_sorted_iff)
  then have desc: "sorted_wrt (>) (rev (sort idxs))"
    by (simp add: sorted_wrt_rev)
  have setidx: "set (rev (sort idxs)) = binaryIndexOf array ` set found"
    by (simp add: idxs_def)
  have range: "\<forall>d \<in> set (rev (sort idxs)). 0 \<le> d \<and> d < int (length array)"
    unfolding setidx using idx by blast
  have "(\<lambda>d. array ! nat d) ` set (rev (sort idxs)) =
        (\<lambda>x. array ! nat (binaryIndexOf array x)) ` set found"
    unfolding setidx by (simp only: image_image)
  also have "\<dots> = (\<lambda>x. x) ` set found"
    by (rule image_cong) (use idx in simp_all)
  also have "\<dots> = set to_remove \<inter> set array"
    by (auto simp: found_def)
  finally have img: "(\<lambda>d. array ! nat d) ` set (rev (sort idxs)) = set to_remove \<inter> set array" .
  have ioe: "indexOfElements array to_remove = idxs"
    by (simp add: indexOfElements_sorted [OF srt] idxs_def found_def)
  have "fold (\<lambda>i a. Array_splice a i 1 []) (rev (sort idxs)) array =
        filter (\<lambda>y. y \<notin> (\<lambda>d. array ! nat d) ` set (rev (sort idxs))) array"
    using dist desc range by (rule fold_splice_remove)
  also have "\<dots> = filter (\<lambda>y. y \<notin> set to_remove \<inter> set array) array"
    by (simp only: img)
  also have "\<dots> = filter (\<lambda>y. y \<notin> set to_remove) array"
    by (rule filter_cong) auto
  finally show ?thesis by (simp only: ioe)
qed

lemma sorted_filter_less_take:
  "sorted a \<Longrightarrow> filter (\<lambda>y. y < x) a = take (length (filter (\<lambda>y. y < x) a)) a"
proof (induction a)
  case Nil
  show ?case by simp
next
  case (Cons y ys)
  show ?case
  proof (cases "y < x")
    case True
    with Cons show ?thesis by simp
  next
    case False
    have "\<forall>z \<in> set ys. \<not> z < x"
    proof
      fix z assume "z \<in> set ys"
      with Cons.prems have "y \<le> z" by simp
      with False show "\<not> z < x" by simp
    qed
    then have "filter (\<lambda>y. y < x) ys = []" by (simp add: filter_empty_conv)
    with False show ?thesis by simp
  qed
qed

lemma Array_splice_insert:
  "n \<le> length a \<Longrightarrow> Array_splice a (int n) 0 [x] = take n a @ [x] @ drop n a"
  by (simp add: Array_splice_def Let_def)

lemma insert_step:
  fixes a :: "'a::linorder list" and x :: 'a
  assumes srt: "sorted a" and dist: "distinct a"
  defines "a' \<equiv> (let index = binaryIndexOf a x
                  in if \<not> isFound a index x then Array_splice a \<bar>index\<bar> 0 [x] else a)"
  shows "sorted a' \<and> distinct a' \<and> set a' = insert x (set a)"
proof (cases "x \<in> set a")
  case True
  then have "a' = a"
    using isFound_binaryIndexOf [OF srt, of x] by (simp add: a'_def Let_def)
  with True srt dist show ?thesis by auto
next
  case False
  define n where "n = length (filter (\<lambda>y. y < x) a)"
  have n: "n \<le> length a" by (simp add: n_def)
  have idx: "binaryIndexOf a x = - int n"
    using binaryIndexOf_correct [OF srt, of x] False by (simp add: insertion_index_def n_def)
  have a': "a' = take n a @ [x] @ drop n a"
    using isFound_binaryIndexOf [OF srt, of x] False n
    by (simp add: a'_def Let_def idx Array_splice_insert)
  have ftake: "filter (\<lambda>y. y < x) a = take n a"
    unfolding n_def using srt by (rule sorted_filter_less_take)
  have split: "a = take n a @ drop n a" by simp
  have "filter (\<lambda>y. y < x) (take n a) @ filter (\<lambda>y. y < x) (drop n a) =
        filter (\<lambda>y. y < x) (take n a @ drop n a)"
    by (simp only: filter_append)
  also have "\<dots> = filter (\<lambda>y. y < x) a" by simp
  also have "\<dots> = take n a" by (rule ftake)
  finally have "filter (\<lambda>y. y < x) (take n a) @ filter (\<lambda>y. y < x) (drop n a) = take n a" .
  moreover have lows: "\<forall>z \<in> set (take n a). z < x"
  proof
    fix z assume "z \<in> set (take n a)"
    then have "z \<in> set (filter (\<lambda>y. y < x) a)" by (simp only: ftake)
    then show "z < x" by simp
  qed
  then have "filter (\<lambda>y. y < x) (take n a) = take n a"
    by (simp add: filter_id_conv)
  ultimately have "filter (\<lambda>y. y < x) (drop n a) = []" by simp
  then have nolow: "\<forall>z \<in> set (drop n a). \<not> z < x" by (simp add: filter_empty_conv)
  have highs: "\<forall>z \<in> set (drop n a). x < z"
  proof
    fix z assume z: "z \<in> set (drop n a)"
    then have "z \<in> set a" by (rule in_set_dropD)
    with False have "z \<noteq> x" by blast
    moreover from z nolow have "\<not> z < x" by blast
    ultimately show "x < z" by simp
  qed
  have st: "sorted (take n a)" and sd: "sorted (drop n a)"
    using srt by (simp_all add: sorted_wrt_take sorted_wrt_drop)
  have sorted': "sorted a'"
    unfolding a' using st sd lows highs by (fastforce simp: sorted_append)
  have dt: "distinct (take n a)" and dd: "distinct (drop n a)"
    using dist by simp_all
  have disj: "set (take n a) \<inter> set (drop n a) = {}"
    using dist split by (metis distinct_append)
  have xt: "x \<notin> set (take n a)" using lows by blast
  have xd: "x \<notin> set (drop n a)" using highs by blast
  have distinct': "distinct a'"
    unfolding a' using dt dd disj xt xd by auto
  have "set (take n a) \<union> set (drop n a) = set a"
    using split by (metis set_append)
  then have set': "set a' = insert x (set a)" unfolding a' by auto
  from sorted' distinct' set' show ?thesis by simp
qed

lemma insert_loop:
  "sorted a \<Longrightarrow> distinct a \<Longrightarrow>
   sorted (fold (\<lambda>x a. let index = binaryIndexOf a x
                          in if \<not> isFound a index x then Array_splice a \<bar>index\<bar> 0 [x] else a)
                 xs a)
   \<and> distinct (fold (\<lambda>x a. let index = binaryIndexOf a x
                          in if \<not> isFound a index x then Array_splice a \<bar>index\<bar> 0 [x] else a)
                 xs a)
   \<and> set (fold (\<lambda>x a. let index = binaryIndexOf a x
                          in if \<not> isFound a index x then Array_splice a \<bar>index\<bar> 0 [x] else a)
                 xs a) = set a \<union> set xs"
proof (induction xs arbitrary: a)
  case Nil
  then show ?case by simp
next
  case (Cons x xs)
  define a' where "a' = (let index = binaryIndexOf a x
                  in if \<not> isFound a index x then Array_splice a \<bar>index\<bar> 0 [x] else a)"
  have step: "sorted a' \<and> distinct a' \<and> set a' = insert x (set a)"
    unfolding a'_def using Cons.prems by (rule insert_step)
  then have s: "sorted a'" and d: "distinct a'" and e: "set a' = insert x (set a)" by simp_all
  from Cons.IH [OF s d] show ?case
    unfolding fold_Cons comp_def a'_def [symmetric] by (simp add: e)
qed

lemma update_splice_correct:
  assumes "sorted array" and "distinct array" and "distinct to_remove"
  shows "sorted (update_splice array to_remove to_insert)
       \<and> distinct (update_splice array to_remove to_insert)
       \<and> set (update_splice array to_remove to_insert) =
           (set array - set to_remove) \<union> set to_insert"
proof -
  define array1 where "array1 = filter (\<lambda>y. y \<notin> set to_remove) array"
  have eq: "update_splice array to_remove to_insert =
        fold (\<lambda>x a. let index = binaryIndexOf a x
                   in if \<not> isFound a index x then Array_splice a \<bar>index\<bar> 0 [x] else a)
             to_insert array1"
    by (cases "array = []")
      (simp_all add: update_splice_def Let_def splice_removal [OF assms] array1_def)
  have s1: "sorted array1" using assms(1) by (simp add: array1_def sorted_wrt_filter)
  have d1: "distinct array1" using assms(2) by (simp add: array1_def)
  have e1: "set array1 = set array - set to_remove" by (auto simp: array1_def)
  from insert_loop [OF s1 d1, of to_insert] show ?thesis
    by (simp only: eq e1)
qed

subsection \<open>The sort strategy\<close>

lemma cmp_le: "cmp x y \<le> 0 \<longleftrightarrow> x \<le> y"
  by (cases x; cases y) simp_all

lemma Array_insort_cmp: "Array_insort cmp x ys = insort x ys"
  by (induction ys) (simp_all add: cmp_le)

lemma Array_sort_cmp: "Array_sort cmp xs = sort xs"
proof -
  have "Array_insort cmp = insort" by (intro ext) (rule Array_insort_cmp)
  then show ?thesis by (simp add: Array_sort_def sort_key_def)
qed

lemma Infinity_top: "Infinity \<le> z \<Longrightarrow> z = Infinity"
  by (cases z) simp_all

lemma flag_loop_nth:
  "\<forall>d \<in> set ds. 0 \<le> d \<Longrightarrow>
   length (fold (\<lambda>i a. a[nat i := Infinity]) ds a) = length a
   \<and> (\<forall>j < length a. fold (\<lambda>i a. a[nat i := Infinity]) ds a ! j =
         (if int j \<in> set ds then Infinity else a ! j))"
proof (induction ds arbitrary: a)
  case Nil
  show ?case by simp
next
  case (Cons d ds)
  have d: "0 \<le> d" using Cons.prems by simp
  have rest: "\<forall>e \<in> set ds. 0 \<le> e" using Cons.prems by simp
  note IH = Cons.IH [OF rest, of "a[nat d := Infinity]"]
  have eqd: "int j = d \<longleftrightarrow> j = nat d" for j using d by auto
  show ?case
    using IH by (auto simp: nth_list_update eqd)
qed

lemma Array_indexOf_takeWhile:
  "Array_indexOf ys x =
     (if x \<in> set ys then int (length (takeWhile (\<lambda>y. y \<noteq> x) ys)) else - 1)"
  by (induction ys) (auto simp: Let_def)

lemma takeWhile_filter_Infinity:
  "sorted ys \<Longrightarrow> takeWhile (\<lambda>y. y \<noteq> Infinity) ys = filter (\<lambda>y. y \<noteq> Infinity) ys"
proof (induction ys)
  case Nil
  show ?case by simp
next
  case (Cons y ys)
  show ?case
  proof (cases "y = Infinity")
    case True
    have "\<forall>z \<in> set ys. z = Infinity"
      using Cons.prems True by (auto intro: Infinity_top)
    then have "filter (\<lambda>y. y \<noteq> Infinity) ys = []" by (simp add: filter_empty_conv)
    with True show ?thesis by simp
  next
    case False
    with Cons show ?thesis by simp
  qed
qed

lemma Array_splice_tail:
  "k \<le> length ys \<Longrightarrow> Array_splice ys (int k) (int (length ys)) [] = take k ys"
  by (simp add: Array_splice_def Let_def)

lemma splice_off_Infinity:
  assumes "sorted ys" and "Infinity \<in> set ys"
  shows "Array_splice ys (Array_indexOf ys Infinity) (int (length ys)) [] =
         filter (\<lambda>y. y \<noteq> Infinity) ys"
proof -
  define k where "k = length (takeWhile (\<lambda>y. y \<noteq> Infinity) ys)"
  have k: "k \<le> length ys" unfolding k_def by (rule length_takeWhile_le)
  have "Array_indexOf ys Infinity = int k"
    using assms(2) by (simp add: Array_indexOf_takeWhile k_def)
  then have "Array_splice ys (Array_indexOf ys Infinity) (int (length ys)) [] = take k ys"
    using k by (simp add: Array_splice_tail)
  also have "\<dots> = takeWhile (\<lambda>y. y \<noteq> Infinity) ys"
    unfolding k_def by (rule takeWhile_eq_take [symmetric])
  also have "\<dots> = filter (\<lambda>y. y \<noteq> Infinity) ys"
    using assms(1) by (rule takeWhile_filter_Infinity)
  finally show ?thesis .
qed

lemma set_unique_fold:
  "set (fold (\<lambda>x seen. if x \<in> set seen then seen else seen @ [x]) A acc) = set acc \<union> set A"
  by (induction A arbitrary: acc) auto

lemma set_unique: "set (unique A) = set A"
  by (simp add: unique_def set_unique_fold)

lemma flagged_set:
  assumes srt: "sorted array" and dist: "distinct array"
  shows "set (fold (\<lambda>i a. a[nat i := Infinity]) (indexOfElements array to_remove) array)
         - {Infinity} = (set array - set to_remove) - {Infinity}
       \<and> (set to_remove \<inter> set array \<noteq> {} \<longrightarrow>
            Infinity \<in> set (fold (\<lambda>i a. a[nat i := Infinity])
                               (indexOfElements array to_remove) array))"
proof -
  define found where "found = filter (\<lambda>x. x \<in> set array) to_remove"
  define idxs where "idxs = map (binaryIndexOf array) found"
  define flagged where "flagged = fold (\<lambda>i a. a[nat i := Infinity]) idxs array"
  have ioe: "indexOfElements array to_remove = idxs"
    by (simp add: indexOfElements_sorted [OF srt] idxs_def found_def)
  have idx: "0 \<le> binaryIndexOf array x \<and> binaryIndexOf array x < int (length array)
             \<and> array ! nat (binaryIndexOf array x) = x" if "x \<in> set found" for x
    using binaryIndexOf_correct [OF srt, of x] that by (simp add: found_def)
  have nonneg: "\<forall>d \<in> set idxs. 0 \<le> d" using idx by (auto simp: idxs_def)
  from flag_loop_nth [OF nonneg, of array]
  have len: "length flagged = length array"
    and nth: "\<And>j. j < length array \<Longrightarrow>
                flagged ! j = (if int j \<in> set idxs then Infinity else array ! j)"
    by (simp_all add: flagged_def)
  have hit: "int j \<in> set idxs \<longleftrightarrow> array ! j \<in> set to_remove" if j: "j < length array" for j
  proof
    assume "int j \<in> set idxs"
    then obtain x where x: "x \<in> set found" "int j = binaryIndexOf array x"
      by (auto simp: idxs_def)
    then have "array ! j = x" using idx [OF x(1)] by (metis nat_int)
    with x(1) show "array ! j \<in> set to_remove" by (simp add: found_def)
  next
    assume r: "array ! j \<in> set to_remove"
    have f: "array ! j \<in> set found" using r j by (simp add: found_def)
    from idx [OF f] have i: "nat (binaryIndexOf array (array ! j)) < length array"
      "array ! nat (binaryIndexOf array (array ! j)) = array ! j" "0 \<le> binaryIndexOf array (array ! j)"
      by (simp_all add: nat_less_iff)
    from i(1,2) j dist have "nat (binaryIndexOf array (array ! j)) = j"
      by (simp add: nth_eq_iff_index_eq)
    then have "int j = binaryIndexOf array (array ! j)" using i(3) by simp
    with f show "int j \<in> set idxs" by (simp add: idxs_def)
  qed
  have one: "set flagged - {Infinity} = (set array - set to_remove) - {Infinity}"
  proof (intro set_eqI iffI)
    fix y assume "y \<in> set flagged - {Infinity}"
    then obtain j where j: "j < length array" "flagged ! j = y" "y \<noteq> Infinity"
      using len by (auto simp: in_set_conv_nth)
    from nth [OF j(1)] j(2,3) have nj: "int j \<notin> set idxs" and y: "y = array ! j"
      by (auto split: if_splits)
    from nj hit [OF j(1)] have "array ! j \<notin> set to_remove" by simp
    with y j show "y \<in> (set array - set to_remove) - {Infinity}" by simp
  next
    fix y assume a: "y \<in> (set array - set to_remove) - {Infinity}"
    then obtain j where j: "j < length array" "array ! j = y"
      by (auto simp: in_set_conv_nth)
    from a j hit [OF j(1)] have "int j \<notin> set idxs" by simp
    with nth [OF j(1)] j(2) have "flagged ! j = y" by simp
    with j(1) len have "y \<in> set flagged" by (metis nth_mem)
    with a show "y \<in> set flagged - {Infinity}" by simp
  qed
  have two: "Infinity \<in> set flagged" if "set to_remove \<inter> set array \<noteq> {}"
  proof -
    from that obtain x where "x \<in> set to_remove" "x \<in> set array" by blast
    then obtain j where j: "j < length array" "array ! j = x" by (auto simp: in_set_conv_nth)
    with \<open>x \<in> set to_remove\<close> hit [OF j(1)] have "int j \<in> set idxs" by simp
    with nth [OF j(1)] have "flagged ! j = Infinity" by simp
    with j(1) len show ?thesis by (metis nth_mem)
  qed
  from one two show ?thesis by (simp add: ioe flagged_def)
qed

lemma update_sort_correct:
  assumes srt: "sorted array" and dist: "distinct array"
    and fin: "Infinity \<notin> set array" "Infinity \<notin> set to_insert"
    and hit: "set to_remove \<inter> set array \<noteq> {}"
  shows "set (update_sort array to_remove to_insert) =
           (set array - set to_remove) \<union> set to_insert"
proof -
  define array1 where
    "array1 = fold (\<lambda>i a. a[nat i := Infinity]) (indexOfElements array to_remove) array"
  define array3 where "array3 = sort (array1 @ to_insert)"
  have ne: "length array > 0" using hit by auto
  from flagged_set [OF srt dist, of to_remove] hit
  have s1: "set array1 - {Infinity} = (set array - set to_remove) - {Infinity}"
    and i1: "Infinity \<in> set array1"
    by (simp_all add: array1_def)
  have s3: "sorted array3" and i3: "Infinity \<in> set array3"
    using i1 by (simp_all add: array3_def)
  have eq: "update_sort array to_remove to_insert =
        unique (Array_splice array3 (Array_indexOf array3 Infinity) (int (length array3)) [])"
    using ne by (simp add: update_sort_def Let_def Array_sort_cmp array1_def array3_def)
  have "set (update_sort array to_remove to_insert) = set array3 - {Infinity}"
    unfolding eq set_unique splice_off_Infinity [OF s3 i3] by auto
  also have "\<dots> = (set array1 - {Infinity}) \<union> (set to_insert - {Infinity})"
    by (auto simp: array3_def)
  also have "\<dots> = (set array - set to_remove) \<union> set to_insert"
    unfolding s1 using fin by auto
  finally show ?thesis .
qed

lemma resolve_approach_cases:
  "resolve_approach n b = ''splice'' \<or> resolve_approach n b = ''sort''"
  by (simp add: resolve_approach_def)

subsection \<open>The post-state of update\<close>

text \<open>
  C1, as the code has it. Let the stored array be sorted and free of duplicates, and let
  \<open>to_remove\<close> and \<open>to_insert\<close> have no element in common. If \<open>update\<close> selects the splice
  strategy and \<open>to_remove\<close> has no duplicates, or selects the sort strategy while neither the
  array nor \<open>to_insert\<close> holds \<open>Infinity\<close> and at least one element of \<open>to_remove\<close> is stored,
  then afterwards the stored array, viewed as a set, is \<open>(prev \<union> to_insert) - to_remove\<close>.
  Duplicate insertions and removals of absent elements are ignored.
\<close>

theorem update_post_state:
  assumes "sorted array" and "distinct array"
    and "set to_remove \<inter> set to_insert = {}"
    and "resolve_approach (length array) (length to_remove + length to_insert) = ''splice''
         \<longrightarrow> distinct to_remove"
    and "resolve_approach (length array) (length to_remove + length to_insert) = ''sort''
         \<longrightarrow> Infinity \<notin> set array \<and> Infinity \<notin> set to_insert
             \<and> set to_remove \<inter> set array \<noteq> {}"
  shows "set (update array to_remove to_insert) =
           (set array \<union> set to_insert) - set to_remove"
proof -
  have goal: "(set array - set to_remove) \<union> set to_insert =
              (set array \<union> set to_insert) - set to_remove"
    using assms(3) by auto
  show ?thesis
  proof (cases "resolve_approach (length array) (length to_remove + length to_insert) = ''splice''")
    case True
    with assms(4) have d: "distinct to_remove" by simp
    from update_splice_correct [OF assms(1,2) d, of to_insert]
    have "set (update_splice array to_remove to_insert) =
          (set array - set to_remove) \<union> set to_insert" by simp
    with True goal show ?thesis by (auto simp: update_def Let_def)
  next
    case False
    with resolve_approach_cases [of "length array" "length to_remove + length to_insert"]
    have s: "resolve_approach (length array) (length to_remove + length to_insert) = ''sort''"
      by simp
    with assms(5) have c: "Infinity \<notin> set array" "Infinity \<notin> set to_insert"
      "set to_remove \<inter> set array \<noteq> {}" by simp_all
    then have "to_remove \<noteq> []" by auto
    from update_sort_correct [OF assms(1,2) c]
    have "set (update_sort array to_remove to_insert) =
          (set array - set to_remove) \<union> set to_insert" .
    with s goal \<open>to_remove \<noteq> []\<close> show ?thesis by (simp add: update_def Let_def)
  qed
qed

lemmas update_eval = update_def resolve_approach_def update_splice_def update_sort_def
  indexOf_def binaryIndexOf_def binaryIndexOf_loop.simps Array_get_def isFound_def
  Array_splice_def Array_sort_def unique_def Let_def not_int_def

theorem update_post_state_witness:
  "sorted [Fin 1, Fin 3, Fin 5] \<and> distinct [Fin 1, Fin 3, Fin 5]
   \<and> set [Fin 3, Fin 4] \<inter> set [Fin 2, Fin 2, Fin 7] = {}
   \<and> resolve_approach (length [Fin 1, Fin 3, Fin 5])
        (length [Fin 3, Fin 4] + length [Fin 2, Fin 2, Fin 7]) = ''splice''
   \<and> distinct [Fin 3, Fin 4]
   \<and> set (update [Fin 1, Fin 3, Fin 5] [Fin 3, Fin 4] [Fin 2, Fin 2, Fin 7])
       = {Fin 1, Fin 2, Fin 5, Fin 7}
   \<and> resolve_approach (length [Fin 1]) (length hundred_and_one + length ([] :: number list))
       = ''sort''
   \<and> Infinity \<notin> set [Fin 1]
   \<and> Fin 1 \<in> set hundred_and_one \<inter> set [Fin 1]
   \<and> set (update [Fin 1] hundred_and_one []) = {}"
proof -
  have a: "sorted [Fin 1, Fin 3, Fin 5]" "distinct [Fin 1, Fin 3, Fin 5]"
    "set [Fin 3, Fin 4] \<inter> set [Fin 2, Fin 2, Fin 7] = {}" by simp_all
  have b: "resolve_approach (length [Fin 1, Fin 3, Fin 5])
        (length [Fin 3, Fin 4] + length [Fin 2, Fin 2, Fin 7]) = ''splice''"
    by (simp add: resolve_approach_def)
  have c: "distinct [Fin 3, Fin 4]" by simp
  have "set (update [Fin 1, Fin 3, Fin 5] [Fin 3, Fin 4] [Fin 2, Fin 2, Fin 7])
       = (set [Fin 1, Fin 3, Fin 5] \<union> set [Fin 2, Fin 2, Fin 7]) - set [Fin 3, Fin 4]"
    using b c by (intro update_post_state [OF a]) simp_all
  also have "\<dots> = {Fin 1, Fin 2, Fin 5, Fin 7}" by auto
  finally have one: "set (update [Fin 1, Fin 3, Fin 5] [Fin 3, Fin 4] [Fin 2, Fin 2, Fin 7])
       = {Fin 1, Fin 2, Fin 5, Fin 7}" .
  have len: "length hundred_and_one = 101" by (simp add: hundred_and_one_def)
  have d: "resolve_approach (length [Fin 1]) (length hundred_and_one + length ([] :: number list))
       = ''sort''"
    by (simp add: resolve_approach_def len)
  have "(1::nat) \<in> set [1..<102]" by simp
  then have "Fin (real 1) \<in> set hundred_and_one"
    unfolding hundred_and_one_def set_map by (rule imageI)
  then have e: "Fin 1 \<in> set hundred_and_one \<inter> set [Fin 1]" by simp
  have f: "sorted [Fin 1]" "distinct [Fin 1]" "set hundred_and_one \<inter> set [] = {}" by simp_all
  have "set (update [Fin 1] hundred_and_one [])
       = (set [Fin 1] \<union> set []) - set hundred_and_one"
    using d e by (intro update_post_state [OF f]) auto
  also have "\<dots> = {}" using e by auto
  finally have two: "set (update [Fin 1] hundred_and_one []) = {}" .
  from a b c one d e two show ?thesis by simp
qed

text \<open>
  C1 as stated fails on inputs the code excludes by design: an element in both lists is
  stored afterwards (removal runs first), a duplicate in \<open>to_remove\<close> makes the splice
  strategy remove a neighbour, and an inserted \<open>Infinity\<close> is cut off with the removal flags
  by the sort strategy.
\<close>

theorem update_post_state_counterexample:
  "sorted [Fin 1, Fin 2, Fin 3] \<and> distinct [Fin 1, Fin 2, Fin 3]
   \<and> update [Fin 1, Fin 2, Fin 3] [Fin 2] [Fin 2] = [Fin 1, Fin 2, Fin 3]
   \<and> set (update [Fin 1, Fin 2, Fin 3] [Fin 2] [Fin 2])
       \<noteq> (set [Fin 1, Fin 2, Fin 3] \<union> set [Fin 2]) - set [Fin 2]
   \<and> update [Fin 1, Fin 2, Fin 3] [Fin 1, Fin 1] [] = [Fin 3]
   \<and> set (update [Fin 1, Fin 2, Fin 3] [Fin 1, Fin 1] [])
       \<noteq> (set [Fin 1, Fin 2, Fin 3] \<union> set []) - set [Fin 1, Fin 1]
   \<and> update [] [] [Infinity, Fin 1] = [Fin 1]
   \<and> set (update [] [] [Infinity, Fin 1]) \<noteq> (set [] \<union> set [Infinity, Fin 1]) - set []"
proof -
  have a: "update [Fin 1, Fin 2, Fin 3] [Fin 2] [Fin 2] = [Fin 1, Fin 2, Fin 3]"
    by (simp add: update_eval)
  have b: "update [Fin 1, Fin 2, Fin 3] [Fin 1, Fin 1] [] = [Fin 3]"
    by (simp add: update_eval)
  have c: "update [] [] [Infinity, Fin 1] = [Fin 1]"
    by (simp add: update_eval)
  have a': "set [Fin 1, Fin 2, Fin 3] \<noteq> (set [Fin 1, Fin 2, Fin 3] \<union> set [Fin 2]) - set [Fin 2]"
    by auto
  have b': "set [Fin 3] \<noteq> (set [Fin 1, Fin 2, Fin 3] \<union> set []) - set [Fin 1, Fin 1]"
    by auto
  have c': "set [Fin 1] \<noteq> (set [] \<union> set [Infinity, Fin 1]) - set []"
    by auto
  have s: "sorted [Fin 1, Fin 2, Fin 3]" "distinct [Fin 1, Fin 2, Fin 3]" by simp_all
  from s a' b' c' show ?thesis unfolding a b c by blast
qed

text \<open>
  The sort strategy with no removal flag in the array: \<open>indexOf(Infinity)\<close> is \<open>-1\<close> and
  \<open>splice(-1, length)\<close> cuts off the last, largest element. The statement of C1 above says
  nothing about this case.
\<close>

theorem update_sort_drops_last:
  "update [] [] [Fin 5] = []
   \<and> update [] [] [Fin 1, Fin 2, Fin 3] = [Fin 1, Fin 2]"
  by (simp add: update_eval)

section \<open>Properties of the maps\<close>

lemma Map_has_iff_get: "Map_has m k \<longleftrightarrow> Map_get m k \<noteq> None"
  by (simp add: Map_has_def Map_get_def map_of_eq_None_iff)

lemma map_of_replace:
  "map_of (map (\<lambda>(k', v'). if k' = k then (k, v) else (k', v')) m) k' =
     (if k' = k \<and> k \<in> fst ` set m then Some v else map_of m k')"
proof (induction m)
  case Nil
  show ?case by simp
next
  case (Cons x m)
  obtain a b where x: "x = (a, b)" by (cases x)
  show ?case using Cons.IH by (cases "a = k"; cases "k' = k") (auto simp: x)
qed

lemma map_of_snoc:
  "map_of (m @ [(k, v)]) k' =
     (case map_of m k' of None \<Rightarrow> (if k' = k then Some v else None) | Some w \<Rightarrow> Some w)"
  by (simp add: map_add_def split: option.splits)

lemma Map_get_Map_set:
  "Map_get (Map_set m k v) k' = (if k' = k then Some v else Map_get m k')"
proof (cases "Map_has m k")
  case True
  then show ?thesis
    by (simp add: Map_get_def Map_set_def map_of_replace Map_has_def)
next
  case False
  then have "map_of m k = None"
    by (simp add: Map_has_def map_of_eq_None_iff)
  with False show ?thesis
    by (simp add: Map_get_def Map_set_def map_add_def split: option.splits)
qed


lemma Map_has_Map_set: "Map_has (Map_set m k v) k' \<longleftrightarrow> k' = k \<or> Map_has m k'"
  by (simp add: Map_has_iff_get Map_get_Map_set)

lemma Map_get_Map_delete:
  "Map_get (Map_delete m k) k' = (if k' = k then None else Map_get m k')"
  unfolding Map_get_def Map_delete_def
  by (induction m) auto

lemma Map_has_Map_delete: "Map_has (Map_delete m k) k' \<longleftrightarrow> k' \<noteq> k \<and> Map_has m k'"
  by (simp add: Map_has_iff_get Map_get_Map_delete)

lemma Map_ok_Map_delete: "Map_ok m \<Longrightarrow> Map_ok (Map_delete m k)"
  unfolding Map_ok_def Map_delete_def by (simp add: distinct_map_filter)

lemma Map_set_fresh: "\<not> Map_has m k \<Longrightarrow> Map_set m k v = m @ [(k, v)]"
  by (simp add: Map_set_def)

lemma map_fst_Map_set_has:
  "Map_has m k \<Longrightarrow> map fst (Map_set m k v) = map fst m"
  unfolding Map_set_def by (induction m) (auto simp: Map_has_def)

lemma Map_ok_Map_set: "Map_ok m \<Longrightarrow> Map_ok (Map_set m k v)"
proof (cases "Map_has m k")
  case True
  assume "Map_ok m"
  with True show ?thesis by (simp add: Map_ok_def map_fst_Map_set_has)
next
  case False
  assume "Map_ok m"
  with False show ?thesis by (auto simp: Map_ok_def Map_set_fresh Map_has_def)
qed

lemma fold_Map_set_distinct:
  "distinct (map fst es) \<Longrightarrow> fst ` set es \<inter> fst ` set m = {} \<Longrightarrow>
   fold (\<lambda>(k, v) m. Map_set m k v) es m = m @ es"
proof (induction es arbitrary: m)
  case Nil
  then show ?case by simp
next
  case (Cons x es)
  obtain k v where x: "x = (k, v)" by (cases x)
  from Cons.prems have fresh: "\<not> Map_has m k" by (auto simp: x Map_has_def)
  have "fold (\<lambda>(k, v) m. Map_set m k v) es (m @ [(k, v)]) = (m @ [(k, v)]) @ es"
    using Cons.prems by (intro Cons.IH) (auto simp: x)
  then show ?case by (simp add: x Map_set_fresh [OF fresh])
qed

lemma Map_new_distinct: "distinct (map fst es) \<Longrightarrow> Map_new es = es"
  using fold_Map_set_distinct [of es "[]"] by (simp add: Map_new_def)

lemma Map_new_filter: "Map_ok a \<Longrightarrow> Map_new (filter P a) = filter P a"
  by (simp add: Map_new_distinct Map_ok_def distinct_map_filter)

lemma map_difference_filter:
  "Map_ok a \<Longrightarrow> map_difference a b = filter (\<lambda>(key, value). \<not> Map_has b key) a"
  by (auto simp: map_difference_def Map_new_filter Map_size_def Map_has_def)

lemma map_intersect_filter:
  "Map_ok a \<Longrightarrow> Map_ok b \<Longrightarrow>
   map_intersect a b =
     (if Map_size a \<le> Map_size b then filter (\<lambda>(key, value). Map_has b key) a
      else filter (\<lambda>(key, value). Map_has a key) b)"
  by (auto simp: map_intersect_def Map_new_filter Map_size_def Map_has_def)

lemma Map_get_filter_keys:
  "Map_get (filter (\<lambda>(key, value). P key) a) k = (if P k then Map_get a k else None)"
  unfolding Map_get_def by (induction a) auto

text \<open>
  C10. For maps \<open>a\<close> and \<open>b\<close>: \<open>map_difference(a, b)\<close> holds exactly the keys of \<open>a\<close>
  that \<open>b\<close> lacks, each with the value of \<open>a\<close>; \<open>map_intersect(a, b)\<close> holds exactly the
  keys of both, each with the value of the smaller map (of \<open>a\<close> when the sizes are equal).
\<close>

theorem map_difference_intersect_entries:
  assumes "Map_ok a" and "Map_ok b"
  shows "Map_get (map_difference a b) k =
           (if Map_has a k \<and> \<not> Map_has b k then Map_get a k else None)
       \<and> Map_get (map_intersect a b) k =
           (if Map_has a k \<and> Map_has b k
            then (if Map_size a \<le> Map_size b then Map_get a k else Map_get b k)
            else None)"
  using assms
  by (auto simp: map_difference_filter map_intersect_filter Map_get_filter_keys Map_has_iff_get)

theorem map_difference_intersect_entries_witness:
  "Map_ok [(1::nat, 10::int), (2, 20), (5, 50)] \<and> Map_ok [(2::nat, 99::int), (3, 30)]
   \<and> Map_get (map_difference [(1::nat, 10::int), (2, 20), (5, 50)] [(2, 99), (3, 30)]) 2 = None
   \<and> Map_get (map_intersect [(1::nat, 10::int), (2, 20), (5, 50)] [(2, 99), (3, 30)]) 2 = Some 99"
proof -
  have a: "Map_ok [(1::nat, 10::int), (2, 20), (5, 50)]" by (simp add: Map_ok_def)
  have b: "Map_ok [(2::nat, 99::int), (3, 30)]" by (simp add: Map_ok_def)
  show ?thesis
    using a b map_difference_intersect_entries [OF a b, of 2]
    by (simp add: Map_has_def Map_get_def Map_size_def)
qed

section \<open>Scheduler-event reconciliation\<close>

text \<open>
  C5. For a due event with a non-singular endpoint and direction \<open>d\<close>, let
  \<open>enter = (d * (right ? -1 : +1)) > 0\<close>. If \<open>enter\<close> holds and the cue is not active, the cue
  is added to the active cues and an enter event is emitted; if \<open>enter\<close> does not hold and the
  cue is active, the cue is removed and an exit event is emitted; in every other case nothing
  is emitted and the active cues are unchanged.
\<close>

theorem schedule_nonsingular_endpoint:
  assumes "endpoint item = (val, right, clsd, False)"
  shows "let c = cue item;
             enter = (direction item * (if right then - 1 else 1) > 0);
             (activeCues', events') = onScheduleCallback_item item (activeCues, events)
         in (enter \<and> \<not> Map_has activeCues (key c) \<longrightarrow>
               activeCues' = Map_set activeCues (key c) c \<and>
               Map_get activeCues' = (Map_get activeCues)(key c \<mapsto> c) \<and>
               events' = events @ [enter_event c])
          \<and> (\<not> enter \<and> Map_has activeCues (key c) \<longrightarrow>
               activeCues' = Map_delete activeCues (key c) \<and>
               Map_get activeCues' = (Map_get activeCues)(key c := None) \<and>
               events' = events @ [exit_event c])
          \<and> (\<not> (enter \<and> \<not> Map_has activeCues (key c)) \<and>
               \<not> (\<not> enter \<and> Map_has activeCues (key c)) \<longrightarrow>
               activeCues' = activeCues \<and> events' = events)"
  using assms
  by (auto simp: onScheduleCallback_item_def Let_def Map_get_Map_set Map_get_Map_delete fun_eq_iff)

theorem schedule_nonsingular_endpoint_witness:
  "endpoint itemB_low = (5, False, True, False)
   \<and> onScheduleCallback_item itemB_low ([(1, cueA)], []) =
         ([(1, cueA), (2, cueB)], [enter_event cueB])"
  using schedule_nonsingular_endpoint [of itemB_low 5 False True "[(1, cueA)]" "[]"]
  by (simp add: fixtures onScheduleCallback_item_def Map_has_def Map_set_def Let_def)

text \<open>
  C4, as the code has it. For a due event with a singular endpoint: if the cue is active, a
  single exit event is emitted and the cue is removed from the active cues; if it is not
  active, an enter event immediately followed by an exit event is emitted and the active cues
  are unchanged.
\<close>

theorem schedule_singular_endpoint:
  assumes "endpoint item = (val, right, clsd, True)"
  shows "let c = cue item;
             (activeCues', events') = onScheduleCallback_item item (activeCues, events)
         in (Map_has activeCues (key c) \<longrightarrow>
               events' = events @ [exit_event c] \<and>
               activeCues' = Map_delete activeCues (key c) \<and>
               Map_get activeCues' = (Map_get activeCues)(key c := None))
          \<and> (\<not> Map_has activeCues (key c) \<longrightarrow>
               events' = events @ [enter_event c, exit_event c] \<and>
               activeCues' = activeCues)"
  using assms
  by (auto simp: onScheduleCallback_item_def Let_def Map_get_Map_delete fun_eq_iff)

theorem schedule_singular_endpoint_witness:
  "endpoint itemP = (7, False, True, True)
   \<and> onScheduleCallback_item itemP ([(4, cueP)], []) = ([], [exit_event cueP])
   \<and> onScheduleCallback_item itemP ([(1, cueA)], []) =
         ([(1, cueA)], [enter_event cueP, exit_event cueP])"
  using schedule_singular_endpoint [of itemP 7 False True "[(4, cueP)]" "[]"]
    schedule_singular_endpoint [of itemP 7 False True "[(1, cueA)]" "[]"]
  by (simp add: fixtures onScheduleCallback_item_def Map_has_def Map_delete_def Let_def)

text \<open>C4 as stated fails: processing a singular endpoint of an active cue changes the
  active cues.\<close>

theorem schedule_singular_active_counterexample:
  "endpoint itemP = (7, False, True, True)
   \<and> Map_has [(4, cueP)] (key (cue itemP))
   \<and> fst (onScheduleCallback_item itemP ([(4, cueP)], [])) \<noteq> [(4, cueP)]"
  by (simp add: onScheduleCallback_item_def fixtures Map_has_def Map_delete_def)

section \<open>Timing-change reconciliation\<close>

lemma set_Map_set: "set (Map_set m k v) \<subseteq> insert (k, v) (set m)"
  unfolding Map_set_def by (auto split: if_splits)

lemma keys_Map_set: "fst ` set (Map_set m k v) = insert k (fst ` set m)"
proof (cases "Map_has m k")
  case True
  have "fst ` set (Map_set m k v) = set (map fst (Map_set m k v))" by simp
  also have "\<dots> = set (map fst m)" using True by (simp only: map_fst_Map_set_has)
  finally show ?thesis using True by (auto simp: Map_has_def)
next
  case False
  then show ?thesis by (simp add: Map_set_fresh)
qed

lemma fold_Map_set_props:
  "Map_ok m \<Longrightarrow>
   Map_ok (fold (\<lambda>(k, v) m. Map_set m k v) es m) \<and>
   fst ` set (fold (\<lambda>(k, v) m. Map_set m k v) es m) = fst ` set m \<union> fst ` set es \<and>
   set (fold (\<lambda>(k, v) m. Map_set m k v) es m) \<subseteq> set m \<union> set es"
proof (induction es arbitrary: m)
  case Nil
  then show ?case by simp
next
  case (Cons x es)
  obtain k v where x: "x = (k, v)" by (cases x)
  have ok: "Map_ok (Map_set m k v)" using Cons.prems by (rule Map_ok_Map_set)
  note IH = Cons.IH [OF ok]
  have sub: "set (Map_set m k v) \<subseteq> insert (k, v) (set m)" by (rule set_Map_set)
  show ?case
    using IH sub by (auto simp: x keys_Map_set)
qed

lemma Map_new_props:
  "Map_ok (Map_new es)" "fst ` set (Map_new es) = fst ` set es" "set (Map_new es) \<subseteq> set es"
  using fold_Map_set_props [of "[]" es] by (simp_all add: Map_new_def Map_ok_def)

lemma set_concat_trigger: "set (concat (trigger evs)) = set evs"
  by (cases evs) (simp_all add: trigger_def)

lemma Map_values_difference:
  "Map_ok a \<Longrightarrow>
   set (Map_values (map_difference a b)) = {c. \<exists>k. (k, c) \<in> set a \<and> \<not> Map_has b k}"
  by (force simp: map_difference_filter Map_values_def)

text \<open>
  What the body does once the identifier \<open>to\<close> is bound (a global variable holding the
  timing object): for a timing change whose motion delta has \<open>posDelta = CHANGE\<close> or
  \<open>moveDelta = STOP\<close>, it looks up the cues covering the new position exactly, makes them the
  active cues, emits an exit event for every previously active cue whose key no longer covers
  and an enter event for every newly covering cue, and emits no event with both \<open>new\<close> and
  \<open>old\<close> present.
\<close>

lemma timing_change_bound_to:
  assumes ok: "Map_ok activeCues"
    and keys: "\<forall>(k, c) \<in> set activeCues. key c = k"
    and bound: "global_to e = Some to"
  shows "let new_vector = (if init then calculateVector e (to_vector to) (clock_now to)
                           else to_vector to);
             d = newMotionDelta e (to_old_vector to) new_vector;
             covering = lookup e (Interval (position new_vector) (position new_vector) True True)
         in posDelta d = PosDelta_CHANGE \<or> moveDelta d = MoveDelta_STOP \<longrightarrow>
            (case onTimingCallback e init activeCues of
               Inl err \<Rightarrow> False
             | Inr (activeCues', notifications, v) \<Rightarrow>
                 activeCues' = Map_new (map (\<lambda>c. (key c, c)) covering)
               \<and> fst ` set activeCues' = key ` set covering
               \<and> snd ` set activeCues' \<subseteq> set covering
               \<and> set (concat notifications) =
                   {exit_event c | c. c \<in> snd ` set activeCues \<and> key c \<notin> key ` set covering}
                 \<union> {enter_event c | c. c \<in> snd ` set activeCues' \<and> \<not> Map_has activeCues (key c)}
               \<and> (\<forall>ev \<in> set (concat notifications). \<not> (new ev \<noteq> None \<and> old ev \<noteq> None)))"
proof -
  define new_vector where
    "new_vector = (if init then calculateVector e (to_vector to) (clock_now to) else to_vector to)"
  define covering where
    "covering = lookup e (Interval (position new_vector) (position new_vector) True True)"
  define A where "A = Map_new (map (\<lambda>c. (key c, c)) covering)"
  have okA: "Map_ok A" unfolding A_def by (rule Map_new_props)
  have keysA: "fst ` set A = key ` set covering"
    unfolding A_def by (simp add: Map_new_props image_image)
  have subA: "set A \<subseteq> (\<lambda>c. (key c, c)) ` set covering"
    unfolding A_def using Map_new_props(3) [of "map (\<lambda>c. (key c, c)) covering"] by simp
  have hasA: "Map_has A k \<longleftrightarrow> k \<in> key ` set covering" for k
    by (simp add: Map_has_def keysA)
  have exits: "set (Map_values (map_difference activeCues A)) =
      {c. c \<in> snd ` set activeCues \<and> key c \<notin> key ` set covering}"
    using keys by (force simp: Map_values_difference [OF ok] hasA)
  have enters: "set (Map_values (map_difference A activeCues)) =
      {c. c \<in> snd ` set A \<and> \<not> Map_has activeCues (key c)}"
    using subA by (force simp: Map_values_difference [OF okA])
  define evs where "evs = map exit_event (Map_values (map_difference activeCues A))
                 @ map enter_event (Map_values (map_difference A activeCues))"
  have evs: "set evs =
        {exit_event c | c. c \<in> snd ` set activeCues \<and> key c \<notin> key ` set covering}
      \<union> {enter_event c | c. c \<in> snd ` set A \<and> \<not> Map_has activeCues (key c)}"
    unfolding evs_def set_append set_map exits enters by blast
  have nochange: "\<forall>ev \<in> set evs. \<not> (new ev \<noteq> None \<and> old ev \<noteq> None)"
    unfolding evs_def by (auto simp: exit_event_def enter_event_def)
  have sndA: "snd ` set A \<subseteq> set covering" using subA by force
  have res: "onTimingCallback e init activeCues = Inr (A, trigger evs, new_vector)"
    if "posDelta (newMotionDelta e (to_old_vector to) new_vector) = PosDelta_CHANGE
        \<or> moveDelta (newMotionDelta e (to_old_vector to) new_vector) = MoveDelta_STOP"
    using that
    unfolding onTimingCallback_def bound option.case Let_def new_vector_def [symmetric]
      covering_def [symmetric] A_def [symmetric] evs_def [symmetric]
    by simp
  show ?thesis
    unfolding Let_def new_vector_def [symmetric] covering_def [symmetric]
  proof (intro impI)
    assume "posDelta (newMotionDelta e (to_old_vector to) new_vector) = PosDelta_CHANGE
        \<or> moveDelta (newMotionDelta e (to_old_vector to) new_vector) = MoveDelta_STOP"
    from res [OF this] show "case onTimingCallback e init activeCues of
               Inl err \<Rightarrow> False
             | Inr (activeCues', notifications, v) \<Rightarrow>
                 activeCues' = Map_new (map (\<lambda>c. (key c, c)) covering)
               \<and> fst ` set activeCues' = key ` set covering
               \<and> snd ` set activeCues' \<subseteq> set covering
               \<and> set (concat notifications) =
                   {exit_event c | c. c \<in> snd ` set activeCues \<and> key c \<notin> key ` set covering}
                 \<union> {enter_event c | c. c \<in> snd ` set activeCues' \<and> \<not> Map_has activeCues (key c)}
               \<and> (\<forall>ev \<in> set (concat notifications). \<not> (new ev \<noteq> None \<and> old ev \<noteq> None))"
      using evs nochange keysA sndA
      by (simp only: sum.case prod.case set_concat_trigger A_def [symmetric])
  qed
qed

lemma timing_change_bound_to_example:
  "onTimingCallback (example_env\<lparr>global_to := Some (example_to 7 25)\<rparr>) False
     [(1, cueA), (2, cueB)] =
   Inr ([(3, cueC)], [[exit_event cueA, exit_event cueB, enter_event cueC]],
        to_vector (example_to 7 25))"
  by (simp add: fixtures onTimingCallback_def Map_new_def Map_set_def Map_has_def
        map_difference_def Map_size_def Map_values_def trigger_def)

lemma onTimingCallback_unbound:
  "global_to e = None \<Longrightarrow> onTimingCallback e init activeCues = Inl ReferenceError"
  by (simp add: onTimingCallback_def)

text \<open>
  C2, evaluated where it fails. The Axis holds the cues \<open>[0, 10]\<close>, \<open>[5, 15]\<close> and
  \<open>[20, 30]\<close>, the first two are active, and the timing object jumps from position 7 to
  position 25, so the motion delta has \<open>posDelta = CHANGE\<close>. The claim has the sequencer exit
  cues 1 and 2, enter cue 3 and make cue 3 the only active cue. No global \<open>to\<close> is declared:
  the handler throws \<open>ReferenceError\<close> at its first read of \<open>to\<close>, emits nothing, and the
  active cues stay as they were.
\<close>

theorem timing_callback_reference_error:
  "global_to example_env = None
   \<and> posDelta (newMotionDelta example_env (to_old_vector (example_to 7 25))
                 (to_vector (example_to 7 25))) = PosDelta_CHANGE
   \<and> map key (lookup example_env (Interval 25 25 True True)) = [3]
   \<and> onTimingCallback example_env False [(1, cueA), (2, cueB)] = Inl ReferenceError
   \<and> seq_activeCues (single_step example_env (TimingCallback False)
         \<lparr>seq_to = example_to 7 25, seq_activeCues = [(1, cueA), (2, cueB)]\<rparr>)
       = [(1, cueA), (2, cueB)]"
  by (simp add: fixtures onTimingCallback_def)

section \<open>Axis-event reconciliation\<close>

text \<open>
  When no event of the map is a no-op, the event-map strategy classifies every event by the
  pair (active, should be active); and when moreover the active cues and the event map are
  consistent with the Axis (an event's new interval covers the position exactly when the
  lookup returns its key, and a key without an event is active exactly when the lookup
  returns it), the three strategies yield the same key sets.
\<close>

lemma get_events_from_axis_events_loop_no_noop:
  assumes "\<forall>item \<in> set items. \<not> isNoop (delta item)"
    and "first \<longrightarrow> activeCues = []"
  shows "get_events_from_axis_events_loop e activeCues first pos items
           (exitEvents, changeEvents, enterEvents) =
         Some (exitEvents @
                 map (\<lambda>item. \<lparr>ekey = ekey item, new = None, old = old item\<rparr>)
                   (filter (\<lambda>item. Map_has activeCues (ekey item)
                                  \<and> \<not> should_be_active e pos item) items),
               changeEvents @
                 map (\<lambda>item. \<lparr>ekey = ekey item, new = new item, old = old item\<rparr>)
                   (filter (\<lambda>item. Map_has activeCues (ekey item)
                                  \<and> should_be_active e pos item) items),
               enterEvents @
                 map (\<lambda>item. \<lparr>ekey = ekey item, new = new item, old = None\<rparr>)
                   (filter (\<lambda>item. \<not> Map_has activeCues (ekey item)
                                  \<and> should_be_active e pos item) items))"
  using assms
proof (induction items arbitrary: exitEvents changeEvents enterEvents)
  case Nil
  show ?case by simp
next
  case (Cons item items)
  have nn: "\<not> isNoop (delta item)" and rest: "\<forall>item \<in> set items. \<not> isNoop (delta item)"
    using Cons.prems(1) by simp_all
  have act: "(if first then False else Map_has activeCues (ekey item))
             = Map_has activeCues (ekey item)"
    using Cons.prems(2) by (auto simp: Map_has_def)
  have sh: "(case new item of None \<Rightarrow> False
             | Some c \<Rightarrow> if covers_endpoint e (interval c) pos then True else False)
            = should_be_active e pos item"
    by (simp add: should_be_active_def split: option.splits)
  note IH = Cons.IH [OF rest Cons.prems(2)]
  show ?case
    by (simp add: nn act sh IH Let_def)
qed

lemma axis_events_classification:
  assumes "\<forall>item \<in> set (Map_values eventMap). \<not> isNoop (delta item)"
  shows "get_events_from_axis_events e activeCues eventMap pos =
         Some (map (\<lambda>item. \<lparr>ekey = ekey item, new = None, old = old item\<rparr>)
                   (filter (\<lambda>item. Map_has activeCues (ekey item)
                                  \<and> \<not> should_be_active e pos item) (Map_values eventMap)),
               map (\<lambda>item. \<lparr>ekey = ekey item, new = new item, old = old item\<rparr>)
                   (filter (\<lambda>item. Map_has activeCues (ekey item)
                                  \<and> should_be_active e pos item) (Map_values eventMap)),
               map (\<lambda>item. \<lparr>ekey = ekey item, new = new item, old = None\<rparr>)
                   (filter (\<lambda>item. \<not> Map_has activeCues (ekey item)
                                  \<and> should_be_active e pos item) (Map_values eventMap)))"
  unfolding get_events_from_axis_events_def Let_def
  using get_events_from_axis_events_loop_no_noop [OF assms, of "Map_size activeCues = 0"
      activeCues e pos "[]" "[]" "[]"]
  by (simp add: Map_size_def)

lemma keys_of_exit_events:
  assumes "\<forall>(k, c) \<in> set m. key c = k"
  shows "keys_of (map exit_event (Map_values m)) = fst ` set m"
  using assms by (force simp: keys_of_def Map_values_def exit_event_def)

lemma keys_of_enter_events:
  assumes "\<forall>(k, c) \<in> set m. key c = k"
  shows "keys_of (map enter_event (Map_values m)) = fst ` set m"
  using assms by (force simp: keys_of_def Map_values_def enter_event_def)

lemma map_difference_keys:
  assumes "Map_ok a"
  shows "fst ` set (map_difference a b) = fst ` set a - fst ` set b"
    and "set (map_difference a b) \<subseteq> set a"
  using assms by (force simp: map_difference_filter Map_has_def)+

lemma map_intersect_keys:
  assumes "Map_ok a" and "Map_ok b"
  shows "fst ` set (map_intersect a b) = fst ` set a \<inter> fst ` set b"
    and "set (map_intersect a b) \<subseteq> set a \<union> set b"
proof -
  show "fst ` set (map_intersect a b) = fst ` set a \<inter> fst ` set b"
    using assms by (cases "Map_size a \<le> Map_size b")
      (force simp: map_intersect_filter Map_has_def)+
  show "set (map_intersect a b) \<subseteq> set a \<union> set b"
    using assms by (cases "Map_size a \<le> Map_size b")
      (auto simp: map_intersect_filter)
qed

lemma keyed_subset:
  "set m' \<subseteq> set m \<Longrightarrow> \<forall>(k, c) \<in> set m. key c = k \<Longrightarrow> \<forall>(k, c) \<in> set m'. key c = k"
  by blast

lemma keys_of_concat_map:
  "keys_of (concat (map f xs)) = (\<Union>x \<in> set xs. keys_of (f x))"
  by (auto simp: keys_of_def)

lemma change_keys_approach2:
  "keys_of (concat (map (\<lambda>item. case Map_get r (ekey item) of
                              None \<Rightarrow> []
                            | Some c \<Rightarrow>
                                if \<not> isNoop (delta item)
                                then [\<lparr>ekey = ekey item, new = new item, old = old item\<rparr>]
                                else [])
                     items)) =
   {ekey item | item. item \<in> set items \<and> Map_has r (ekey item) \<and> \<not> isNoop (delta item)}"
proof -
  have one: "keys_of (case Map_get r (ekey item) of
                              None \<Rightarrow> []
                            | Some c \<Rightarrow>
                                if \<not> isNoop (delta item)
                                then [\<lparr>ekey = ekey item, new = new item, old = old item\<rparr>]
                                else []) =
        (if Map_has r (ekey item) \<and> \<not> isNoop (delta item) then {ekey item} else {})" for item
    by (cases "Map_get r (ekey item)") (simp_all add: keys_of_def Map_has_iff_get)
  show ?thesis
    unfolding keys_of_concat_map one by (auto split: if_splits)
qed

lemma change_keys_approach1:
  "keys_of (concat (map (\<lambda>c. case Map_get m (key c) of
                              None \<Rightarrow> []
                            | Some item \<Rightarrow>
                                if \<not> isNoop (delta item)
                                then [\<lparr>ekey = ekey item, new = new item, old = old item\<rparr>]
                                else [])
                     cs)) =
   {ekey item | item c. c \<in> set cs \<and> Map_get m (key c) = Some item \<and> \<not> isNoop (delta item)}"
proof -
  have one: "keys_of (case Map_get m (key c) of
                              None \<Rightarrow> []
                            | Some item \<Rightarrow>
                                if \<not> isNoop (delta item)
                                then [\<lparr>ekey = ekey item, new = new item, old = old item\<rparr>]
                                else []) =
        {ekey item | item. Map_get m (key c) = Some item \<and> \<not> isNoop (delta item)}" for c
    by (cases "Map_get m (key c)") (auto simp: keys_of_def)
  show ?thesis
    unfolding keys_of_concat_map one by blast
qed

lemma axis_strategies_agree:
  assumes okE: "Map_ok eventMap" and keyE: "\<forall>(k, item) \<in> set eventMap. ekey item = k"
    and okA: "Map_ok activeCues" and keyA: "\<forall>(k, c) \<in> set activeCues. key c = k"
    and nn: "\<forall>item \<in> set (Map_values eventMap). \<not> isNoop (delta item)"
    and c1: "\<forall>item \<in> set (Map_values eventMap).
               should_be_active e pos item \<longleftrightarrow> ekey item \<in> key ` set (lookup e (Interval1 pos))"
    and c2: "\<forall>k. \<not> Map_has eventMap k \<longrightarrow>
               (Map_has activeCues k \<longleftrightarrow> k \<in> key ` set (lookup e (Interval1 pos)))"
  shows "map_option key_sets (get_events_from_axis_events e activeCues eventMap pos) =
         Some (key_sets (get_events_from_axis_lookup e activeCues eventMap pos approach1))"
proof -
  define L where "L = lookup e (Interval1 pos)"
  define A where "A = Map_new (map (\<lambda>c. (key c, c)) L)"
  define items where "items = Map_values eventMap"
  define K0 where "K0 = fst ` set activeCues"
  define KA where "KA = key ` set L"
  define KE where "KE = fst ` set eventMap"
  define R where "R = map_intersect activeCues A"
  have okA': "Map_ok A" unfolding A_def by (rule Map_new_props)
  have keysA': "fst ` set A = KA"
    unfolding A_def KA_def by (simp add: Map_new_props image_image)
  have keyA': "\<forall>(k, c) \<in> set A. key c = k"
    using Map_new_props(3) [of "map (\<lambda>c. (key c, c)) L"] unfolding A_def by auto
  have has0: "Map_has activeCues k \<longleftrightarrow> k \<in> K0" for k by (simp add: Map_has_def K0_def)
  have hasE: "Map_has eventMap k \<longleftrightarrow> k \<in> KE" for k by (simp add: Map_has_def KE_def)
  have ekeys: "ekey ` set items = KE"
    using keyE by (force simp: items_def Map_values_def KE_def)
  have should: "should_be_active e pos item \<longleftrightarrow> ekey item \<in> KA" if "item \<in> set items" for item
    using c1 that by (simp add: items_def KA_def L_def)
  have outside: "k \<in> K0 \<longleftrightarrow> k \<in> KA" if "k \<notin> KE" for k
    using c2 that by (simp add: has0 hasE KA_def L_def)
  have nn': "\<not> isNoop (delta item)" if "item \<in> set items" for item
    using nn that by (simp add: items_def)
  \<comment> \<open>the event-map strategy\<close>
  have res1: "get_events_from_axis_events e activeCues eventMap pos =
      Some (map (\<lambda>item. \<lparr>ekey = ekey item, new = None, old = old item\<rparr>)
                   (filter (\<lambda>item. Map_has activeCues (ekey item)
                                  \<and> \<not> should_be_active e pos item) items),
               map (\<lambda>item. \<lparr>ekey = ekey item, new = new item, old = old item\<rparr>)
                   (filter (\<lambda>item. Map_has activeCues (ekey item)
                                  \<and> should_be_active e pos item) items),
               map (\<lambda>item. \<lparr>ekey = ekey item, new = new item, old = None\<rparr>)
                   (filter (\<lambda>item. \<not> Map_has activeCues (ekey item)
                                  \<and> should_be_active e pos item) items))"
    unfolding items_def using nn by (rule axis_events_classification)
  have exit1: "keys_of (map (\<lambda>item. \<lparr>ekey = ekey item, new = None, old = old item\<rparr>)
                   (filter (\<lambda>item. Map_has activeCues (ekey item)
                                  \<and> \<not> should_be_active e pos item) items)) = K0 - KA"
  proof -
    have "keys_of (map (\<lambda>item. \<lparr>ekey = ekey item, new = None, old = old item\<rparr>)
                   (filter (\<lambda>item. Map_has activeCues (ekey item)
                                  \<and> \<not> should_be_active e pos item) items))
          = {k \<in> KE. k \<in> K0 \<and> k \<notin> KA}"
      using should ekeys by (force simp: keys_of_def has0)
    also have "\<dots> = K0 - KA" using outside by blast
    finally show ?thesis .
  qed
  have change1: "keys_of (map (\<lambda>item. \<lparr>ekey = ekey item, new = new item, old = old item\<rparr>)
                   (filter (\<lambda>item. Map_has activeCues (ekey item)
                                  \<and> should_be_active e pos item) items))
                 = KE \<inter> K0 \<inter> KA"
    using should ekeys by (force simp: keys_of_def has0)
  have enter1: "keys_of (map (\<lambda>item. \<lparr>ekey = ekey item, new = new item, old = None\<rparr>)
                   (filter (\<lambda>item. \<not> Map_has activeCues (ekey item)
                                  \<and> should_be_active e pos item) items)) = KA - K0"
  proof -
    have "keys_of (map (\<lambda>item. \<lparr>ekey = ekey item, new = new item, old = None\<rparr>)
                   (filter (\<lambda>item. \<not> Map_has activeCues (ekey item)
                                  \<and> should_be_active e pos item) items))
          = {k \<in> KE. k \<notin> K0 \<and> k \<in> KA}"
      using should ekeys by (force simp: keys_of_def has0)
    also have "\<dots> = KA - K0" using outside by blast
    finally show ?thesis .
  qed
  \<comment> \<open>the lookup strategy\<close>
  have exit3: "keys_of (map exit_event (Map_values (map_difference activeCues A))) = K0 - KA"
    using keys_of_exit_events [OF keyed_subset [OF map_difference_keys(2) [OF okA] keyA]]
      map_difference_keys(1) [OF okA, of A]
    by (simp add: K0_def keysA')
  have enter3: "keys_of (map enter_event (Map_values (map_difference A activeCues))) = KA - K0"
    using keys_of_enter_events [OF keyed_subset [OF map_difference_keys(2) [OF okA'] keyA']]
      map_difference_keys(1) [OF okA', of activeCues]
    by (simp add: K0_def keysA')
  have enter3': "keys_of (map enter_event (Map_values A)) = KA"
    using keys_of_enter_events [OF keyA'] by (simp add: keysA')
  have keysR: "fst ` set R = K0 \<inter> KA"
    unfolding R_def using map_intersect_keys(1) [OF okA okA'] by (simp add: K0_def keysA')
  have hasR: "Map_has R k \<longleftrightarrow> k \<in> K0 \<inter> KA" for k
    using keysR by (simp add: Map_has_def)
  have keyR: "\<forall>(k, c) \<in> set R. key c = k"
    using map_intersect_keys(2) [OF okA okA'] keyA keyA' unfolding R_def by blast
  have change3b: "keys_of (concat (map (\<lambda>item. case Map_get R (ekey item) of
                              None \<Rightarrow> []
                            | Some c \<Rightarrow>
                                if \<not> isNoop (delta item)
                                then [\<lparr>ekey = ekey item, new = new item, old = old item\<rparr>]
                                else [])
                     items)) = KE \<inter> K0 \<inter> KA"
    unfolding change_keys_approach2 using nn' ekeys by (force simp: hasR)
  have getE: "Map_get eventMap k = Some item \<longleftrightarrow> (k, item) \<in> set eventMap" for k item
    using okE by (simp add: Map_ok_def Map_get_def)
  have change3a: "keys_of (concat (map (\<lambda>c. case Map_get eventMap (key c) of
                              None \<Rightarrow> []
                            | Some item \<Rightarrow>
                                if \<not> isNoop (delta item)
                                then [\<lparr>ekey = ekey item, new = new item, old = old item\<rparr>]
                                else [])
                     (Map_values R))) = KE \<inter> K0 \<inter> KA"
  proof (intro set_eqI iffI)
    fix k assume "k \<in> keys_of (concat (map (\<lambda>c. case Map_get eventMap (key c) of
                              None \<Rightarrow> []
                            | Some item \<Rightarrow>
                                if \<not> isNoop (delta item)
                                then [\<lparr>ekey = ekey item, new = new item, old = old item\<rparr>]
                                else [])
                     (Map_values R)))"
    then obtain item c where ic: "k = ekey item" "c \<in> set (Map_values R)"
      "Map_get eventMap (key c) = Some item"
      unfolding change_keys_approach1 by blast
    from ic(3) have mem: "(key c, item) \<in> set eventMap" by (simp add: getE)
    with keyE have "ekey item = key c" by blast
    moreover from mem have "key c \<in> KE" by (force simp: KE_def)
    moreover from ic(2) obtain k' where "(k', c) \<in> set R" by (auto simp: Map_values_def)
    with keyR keysR have "key c \<in> K0 \<inter> KA" by force
    ultimately show "k \<in> KE \<inter> K0 \<inter> KA" using ic(1) by simp
  next
    fix k assume k: "k \<in> KE \<inter> K0 \<inter> KA"
    then obtain item where mem: "(k, item) \<in> set eventMap" by (auto simp: KE_def)
    with keyE have ek: "ekey item = k" by blast
    from mem have "item \<in> set items" by (force simp: items_def Map_values_def)
    then have nnoop: "\<not> isNoop (delta item)" by (rule nn')
    from k keysR obtain c where c: "(k, c) \<in> set R" by force
    with keyR have kc: "key c = k" by blast
    from c have cv: "c \<in> set (Map_values R)" by (force simp: Map_values_def)
    from mem have "Map_get eventMap (key c) = Some item" by (simp add: getE kc)
    with cv nnoop ek show "k \<in> keys_of (concat (map (\<lambda>c. case Map_get eventMap (key c) of
                              None \<Rightarrow> []
                            | Some item \<Rightarrow>
                                if \<not> isNoop (delta item)
                                then [\<lparr>ekey = ekey item, new = new item, old = old item\<rparr>]
                                else [])
                     (Map_values R)))"
      unfolding change_keys_approach1 by blast
  qed
  have empty: "K0 = {}" if "activeCues = []" using that by (simp add: K0_def)
  have keys_nil: "keys_of [] = {}" by (simp add: keys_of_def)
  show ?thesis
  proof (cases "activeCues = []")
    case True
    have "key_sets (get_events_from_axis_lookup e activeCues eventMap pos approach1)
          = ({}, {}, KA)"
      using True enter3'
      by (simp add: get_events_from_axis_lookup_def Let_def key_sets_def Map_size_def keys_nil
            L_def [symmetric] A_def [symmetric])
    moreover have "map_option key_sets (get_events_from_axis_events e activeCues eventMap pos)
          = Some (K0 - KA, KE \<inter> K0 \<inter> KA, KA - K0)"
      unfolding res1 by (simp add: key_sets_def exit1 change1 enter1)
    ultimately show ?thesis using empty [OF True] by simp
  next
    case False
    have "key_sets (get_events_from_axis_lookup e activeCues eventMap pos approach1)
          = (K0 - KA, KE \<inter> K0 \<inter> KA, KA - K0)"
      using False exit3 enter3 change3a change3b
      by (simp add: get_events_from_axis_lookup_def Let_def key_sets_def Map_size_def
            L_def [symmetric] A_def [symmetric] R_def [symmetric] items_def [symmetric])
    moreover have "map_option key_sets (get_events_from_axis_events e activeCues eventMap pos)
          = Some (K0 - KA, KE \<inter> K0 \<inter> KA, KA - K0)"
      unfolding res1 by (simp add: key_sets_def exit1 change1 enter1)
    ultimately show ?thesis by simp
  qed
qed

text \<open>
  C3, evaluated where it fails. The event map holds an insertion of cue 1, whose interval
  delta is not \<open>NOOP\<close>, whose key is not active and whose new interval covers the position, and
  a no-op for cue 2. The claim classifies the first event as an enter event; the loop leaves
  the function at the no-op and no result is returned.
\<close>

theorem axis_events_noop_aborts:
  "interval_delta (delta itemA_insert) \<noteq> NOOP
   \<and> \<not> Map_has [(2, cueB)] (ekey itemA_insert)
   \<and> covers_endpoint example_env (interval cueA) 7
   \<and> get_events_from_axis_events example_env [(2, cueB)]
        [(1, itemA_insert), (2, itemB_noop)] 7 = None"
  by (simp add: fixtures get_events_from_axis_events_def Map_size_def Map_values_def
        Map_has_def isNoop_def)

text \<open>
  C9, evaluated where it fails. Cue 2 is active and still covers the position, cue 1 has
  just been inserted and covers it too, and the event map holds a no-op for cue 2 and the
  insertion of cue 1. The strategy driven by the event map returns no result, both lookup
  strategies return the key sets \<open>exit {}\<close>, \<open>change {}\<close>, \<open>enter {1}\<close>, and the callback
  fails when it destructures the missing result.
\<close>

theorem axis_strategies_disagree:
  "map key (lookup example_env (Interval1 7)) = [1, 2]
   \<and> map_option key_sets (get_events_from_axis_events example_env [(2, cueB)]
        [(2, itemB_noop), (1, itemA_insert)] 7) = None
   \<and> key_sets (get_events_from_axis_lookup example_env [(2, cueB)]
        [(2, itemB_noop), (1, itemA_insert)] 7 True) = ({}, {}, {1})
   \<and> key_sets (get_events_from_axis_lookup example_env [(2, cueB)]
        [(2, itemB_noop), (1, itemA_insert)] 7 False) = ({}, {}, {1})
   \<and> onAxisCallback example_env (example_to 7 7) [(2, itemB_noop), (1, itemA_insert)]
        [(2, cueB)] = Inl TypeError"
  by (simp add: fixtures get_events_from_axis_events_def get_events_from_axis_lookup_def
        onAxisCallback_def Map_size_def Map_values_def Map_has_def isNoop_def Map_new_def
        Map_set_def map_intersect_def map_difference_def Map_get_def Let_def key_sets_def
        keys_of_def enter_event_def)

section \<open>The invariant of the active cues\<close>

text \<open>
  The active cues of a single sequencer are a map (one entry per key) that binds every cue
  under its own key. The sequencer starts with the empty map, and each of its three handlers
  preserves both properties; they are the hypotheses of the lemma on the timing change.
\<close>

lemma keyed_Map_set:
  assumes "\<forall>(k, c) \<in> set m. key c = k"
  shows "\<forall>(k, c) \<in> set (Map_set m (key c') c'). key c = k"
  using assms set_Map_set [of m "key c'" c'] by auto

lemma keyed_Map_delete:
  assumes "\<forall>(k, c) \<in> set m. key c = k"
  shows "\<forall>(k, c) \<in> set (Map_delete m k'). key c = k"
  using assms by (auto simp: Map_delete_def)

lemma keyed_Map_new:
  "\<forall>(k, c) \<in> set (Map_new (map (\<lambda>c. (key c, c)) cs)). key c = k"
  using Map_new_props(3) [of "map (\<lambda>c. (key c, c)) cs"] by auto

lemma onScheduleCallback_item_invariant:
  assumes "Map_ok (fst st)" and "\<forall>(k, c) \<in> set (fst st). key c = k"
  shows "Map_ok (fst (onScheduleCallback_item item st))
       \<and> (\<forall>(k, c) \<in> set (fst (onScheduleCallback_item item st)). key c = k)"
proof -
  obtain a evs where st: "st = (a, evs)" by (cases st)
  obtain v r cl sg where ep: "endpoint item = (v, r, cl, sg)" by (cases "endpoint item")
  have ok: "Map_ok a" and kd: "\<forall>(k, c) \<in> set a. key c = k" using assms by (simp_all add: st)
  note facts = Map_ok_Map_set [OF ok, of "key (cue item)" "cue item"]
    Map_ok_Map_delete [OF ok, of "key (cue item)"]
    keyed_Map_set [OF kd, of "cue item"] keyed_Map_delete [OF kd, of "key (cue item)"] ok kd
  show ?thesis
    using facts by (simp add: onScheduleCallback_item_def st ep Let_def)
qed

lemma fold_onScheduleCallback_item_invariant:
  "Map_ok (fst st) \<Longrightarrow> \<forall>(k, c) \<in> set (fst st). key c = k \<Longrightarrow>
   Map_ok (fst (fold onScheduleCallback_item items st))
   \<and> (\<forall>(k, c) \<in> set (fst (fold onScheduleCallback_item items st)). key c = k)"
proof (induction items arbitrary: st)
  case Nil
  then show ?case by simp
next
  case (Cons item items)
  from onScheduleCallback_item_invariant [OF Cons.prems, of item]
  have ok: "Map_ok (fst (onScheduleCallback_item item st))"
    and kd: "\<forall>(k, c) \<in> set (fst (onScheduleCallback_item item st)). key c = k"
    by simp_all
  from Cons.IH [OF ok kd] show ?case by simp
qed

lemma onScheduleCallback_invariant:
  assumes "Map_ok a" and "\<forall>(k, c) \<in> set a. key c = k"
  shows "Map_ok (fst (onScheduleCallback items a))
       \<and> (\<forall>(k, c) \<in> set (fst (onScheduleCallback items a)). key c = k)"
proof -
  have eq: "fst (onScheduleCallback items a) =
      fst (fold onScheduleCallback_item items (a, []))"
    by (simp add: onScheduleCallback_def split: prod.splits)
  have ok: "Map_ok (fst (a, [] :: event list))" using assms(1) by simp
  have kd: "\<forall>(k, c) \<in> set (fst (a, [] :: event list)). key c = k" using assms(2) by simp
  from fold_onScheduleCallback_item_invariant [OF ok kd, of items]
  show ?thesis unfolding eq .
qed

lemma onTimingCallback_invariant:
  assumes "Map_ok a" and "\<forall>(k, c) \<in> set a. key c = k"
    and "onTimingCallback e init a = Inr (a', notifications, v)"
  shows "Map_ok a' \<and> (\<forall>(k, c) \<in> set a'. key c = k)"
proof -
  have "a' = a \<or> (\<exists>cs. a' = Map_new (map (\<lambda>c. (key c, c)) cs))"
    using assms(3) by (auto simp: onTimingCallback_def Let_def split: option.splits if_splits)
  then show ?thesis
  proof (elim disjE exE)
    assume "a' = a"
    with assms show ?thesis by simp
  next
    fix cs assume eq: "a' = Map_new (map (\<lambda>c. (key c, c)) cs)"
    show ?thesis
      unfolding eq using keyed_Map_new [of cs] Map_new_props(1) [of "map (\<lambda>c. (key c, c)) cs"]
      by blast
  qed
qed

lemma fold_delete_invariant:
  "Map_ok a \<Longrightarrow> \<forall>(k, c) \<in> set a. key c = k \<Longrightarrow>
   Map_ok (fold (\<lambda>item m. Map_delete m (ekey item)) evs a)
   \<and> (\<forall>(k, c) \<in> set (fold (\<lambda>item m. Map_delete m (ekey item)) evs a). key c = k)"
proof (induction evs arbitrary: a)
  case Nil
  then show ?case by simp
next
  case (Cons ev evs)
  have ok: "Map_ok (Map_delete a (ekey ev))" using Cons.prems(1) by (rule Map_ok_Map_delete)
  have kd: "\<forall>(k, c) \<in> set (Map_delete a (ekey ev)). key c = k"
    using Cons.prems(2) by (rule keyed_Map_delete)
  from Cons.IH [OF ok kd] show ?case by simp
qed

lemma fold_enter_invariant:
  "Map_ok a \<Longrightarrow> \<forall>(k, c) \<in> set a. key c = k \<Longrightarrow>
   Map_ok (fold (\<lambda>item m. case new item of Some c \<Rightarrow> Map_set m (ekey item) c | None \<Rightarrow> m)
             (map enter_event cs) a)
   \<and> (\<forall>(k, c) \<in> set (fold (\<lambda>item m. case new item of
                                      Some c \<Rightarrow> Map_set m (ekey item) c | None \<Rightarrow> m)
                         (map enter_event cs) a). key c = k)"
proof (induction cs arbitrary: a)
  case Nil
  then show ?case by simp
next
  case (Cons c cs)
  have ok: "Map_ok (Map_set a (key c) c)" using Cons.prems(1) by (rule Map_ok_Map_set)
  have kd: "\<forall>(k, c') \<in> set (Map_set a (key c) c). key c' = k"
    using Cons.prems(2) by (rule keyed_Map_set)
  from Cons.IH [OF ok kd] show ?case by (simp add: enter_event_def)
qed

lemma onAxisCallback_invariant:
  assumes "Map_ok a" and "\<forall>(k, c) \<in> set a. key c = k"
    and "onAxisCallback e to eventMap a = Inr (a', notifications, v)"
  shows "Map_ok a' \<and> (\<forall>(k, c) \<in> set a'. key c = k)"
proof -
  define p where "p = position (calculateVector e (to_vector to) (clock_now to))"
  obtain ex ch en where r3: "get_events_from_axis_lookup e a eventMap p False = (ex, ch, en)"
    by (cases "get_events_from_axis_lookup e a eventMap p False")
  obtain cs where en: "en = map enter_event cs"
    using r3 by (auto simp: get_events_from_axis_lookup_def Let_def)
  from assms(3) have a': "a' = fold (\<lambda>item m. case new item of
                                      Some c \<Rightarrow> Map_set m (ekey item) c | None \<Rightarrow> m) en
                              (fold (\<lambda>item m. Map_delete m (ekey item)) ex a)"
    by (auto simp: onAxisCallback_def Let_def p_def [symmetric] r3 split: option.splits)
  from fold_delete_invariant [OF assms(1,2), of ex]
  have d: "Map_ok (fold (\<lambda>item m. Map_delete m (ekey item)) ex a)"
    "\<forall>(k, c) \<in> set (fold (\<lambda>item m. Map_delete m (ekey item)) ex a). key c = k"
    by simp_all
  from fold_enter_invariant [OF d, of cs] show ?thesis by (simp add: a' en)
qed

lemma single_step_invariant:
  assumes "Map_ok (seq_activeCues s)" and "\<forall>(k, c) \<in> set (seq_activeCues s). key c = k"
  shows "Map_ok (seq_activeCues (single_step e i s))
       \<and> (\<forall>(k, c) \<in> set (seq_activeCues (single_step e i s)). key c = k)"
proof (cases i)
  case (AxisCallback eventMap)
  show ?thesis
  proof (cases "onAxisCallback e (seq_to s) eventMap (seq_activeCues s)")
    case (Inl err)
    with AxisCallback assms show ?thesis by simp
  next
    case (Inr r)
    obtain a' n v where r: "r = (a', n, v)" by (cases r)
    from onAxisCallback_invariant [OF assms Inr [unfolded r]] AxisCallback Inr r
    show ?thesis by simp
  qed
next
  case (TimingCallback init)
  show ?thesis
  proof (cases "onTimingCallback e init (seq_activeCues s)")
    case (Inl err)
    with TimingCallback assms show ?thesis by simp
  next
    case (Inr r)
    obtain a' n v where r: "r = (a', n, v)" by (cases r)
    from onTimingCallback_invariant [OF assms Inr [unfolded r]] TimingCallback Inr r
    show ?thesis by simp
  qed
next
  case (ScheduleCallback items)
  have "seq_activeCues (single_step e (ScheduleCallback items) s) =
        fst (onScheduleCallback items (seq_activeCues s))"
    by (simp split: prod.splits)
  with onScheduleCallback_invariant [OF assms, of items] ScheduleCallback
  show ?thesis by simp
qed

lemma single_run_invariant:
  "Map_ok (seq_activeCues s) \<Longrightarrow> \<forall>(k, c) \<in> set (seq_activeCues s). key c = k \<Longrightarrow>
   Map_ok (seq_activeCues (single_run e inputs s))
   \<and> (\<forall>(k, c) \<in> set (seq_activeCues (single_run e inputs s)). key c = k)"
  unfolding single_run_def
proof (induction inputs arbitrary: s)
  case Nil
  then show ?case by simp
next
  case (Cons i inputs)
  from single_step_invariant [OF Cons.prems, of e i]
  have ok: "Map_ok (seq_activeCues (single_step e i s))"
    and kd: "\<forall>(k, c) \<in> set (seq_activeCues (single_step e i s)). key c = k"
    by simp_all
  from Cons.IH [OF ok kd] show ?case by simp
qed

section \<open>Readiness\<close>

lemma double_run_snoc: "double_run (inputs @ [i]) s = double_step i (double_run inputs s)"
  by (simp add: double_run_def)

lemma double_run_invariant:
  assumes "a \<noteq> b"
  shows "toA (double_run inputs (DoubleSequencer_new a b)) = a
       \<and> toB (double_run inputs (DoubleSequencer_new a b)) = b
       \<and> (toA_ready (double_run inputs (DoubleSequencer_new a b)) \<longleftrightarrow> TimingUpdate a \<in> set inputs)
       \<and> (toB_ready (double_run inputs (DoubleSequencer_new a b)) \<longleftrightarrow> TimingUpdate b \<in> set inputs)
       \<and> (ready (double_run inputs (DoubleSequencer_new a b)) \<longleftrightarrow>
            TimingUpdate a \<in> set inputs \<and> TimingUpdate b \<in> set inputs)"
proof (induction inputs rule: rev_induct)
  case Nil
  show ?case by (simp add: double_run_def DoubleSequencer_new_def)
next
  case (snoc i inputs)
  show ?case
  proof (cases i)
    case (TimingUpdate src)
    with snoc assms show ?thesis
      by (auto simp: double_run_snoc onTimingUpdateWrapper_def Let_def)
  next
    case AxisUpdate
    with snoc show ?thesis by (simp add: double_run_snoc)
  next
    case ScheduleUpdate
    with snoc show ?thesis by (simp add: double_run_snoc)
  qed
qed

lemma double_step_ready: "ready s \<Longrightarrow> ready (double_step i s)"
  by (cases i) (simp_all add: onTimingUpdateWrapper_def)

lemma double_run_ready: "ready s \<Longrightarrow> ready (double_run inputs s)"
  unfolding double_run_def
  by (induction inputs arbitrary: s) (simp_all add: double_step_ready)

lemma single_step_to: "seq_to (single_step e i s) = seq_to s"
  by (cases i) (auto split: sum.splits prod.splits)

lemma single_run_to: "seq_to (single_run e inputs s) = seq_to s"
  unfolding single_run_def
  by (induction inputs arbitrary: s) (simp_all add: single_step_to)

text \<open>
  C7. Readiness is a latch. The double sequencer is ready exactly when both of its timing
  objects have reported; once ready it stays ready under any further timing, axis or
  scheduler input. The single sequencer's readiness is its timing object's, and none of its
  handlers changes it.
\<close>

theorem readiness_latch:
  assumes "a \<noteq> b"
  shows "(DoubleSequencer_isReady (double_run inputs (DoubleSequencer_new a b)) \<longleftrightarrow>
            TimingUpdate a \<in> set inputs \<and> TimingUpdate b \<in> set inputs)
       \<and> (DoubleSequencer_isReady s \<longrightarrow> DoubleSequencer_isReady (double_run later s))
       \<and> SingleSequencer_isReady (single_run e sinputs q) = to_isReady (seq_to q)"
  using double_run_invariant [OF assms, of inputs] double_run_ready [of s later]
  by (simp add: DoubleSequencer_isReady_def SingleSequencer_isReady_def single_run_to)

theorem readiness_latch_witness:
  "(1::nat) \<noteq> 2
   \<and> \<not> DoubleSequencer_isReady (double_run [TimingUpdate 1, AxisUpdate] (DoubleSequencer_new 1 2))
   \<and> DoubleSequencer_isReady
        (double_run [TimingUpdate 1, AxisUpdate, TimingUpdate 2] (DoubleSequencer_new 1 2))
   \<and> DoubleSequencer_isReady
        (double_run [TimingUpdate 3, ScheduleUpdate]
           (double_run [TimingUpdate 1, AxisUpdate, TimingUpdate 2] (DoubleSequencer_new 1 2)))"
proof -
  have ne: "(1::nat) \<noteq> 2" by simp
  show ?thesis
    using ne
      readiness_latch [OF ne, where inputs = "[TimingUpdate 1, AxisUpdate]"]
      readiness_latch [OF ne, where inputs = "[TimingUpdate 1, AxisUpdate, TimingUpdate 2]"
        and s = "double_run [TimingUpdate 1, AxisUpdate, TimingUpdate 2] (DoubleSequencer_new 1 2)"
        and later = "[TimingUpdate 3, ScheduleUpdate]"]
    by simp
qed

end
